theory Spec2Isabelle
  imports Complex_Main "HOL-Library.AList"
begin

section \<open>PagingBrowser: scroll percentages\<close>

text \<open>
  \<^verbatim>\<open>src/web/js/electron/capture/pagination/PagingBrowser.js\<close>.
  A JavaScript number is an IEEE 754 double: a finite number, one of the two zeros, an
  infinity, or NaN. \<open>Fin r\<close> is the finite number \<open>r\<close>, and the zero \<open>+0\<close> when
  \<open>r = 0\<close>; \<open>NegZero\<close> is \<open>-0\<close>. The finite doubles are the numbers
  \<open>m * 2\<^sup>e\<^sup>-\<^sup>5\<^sup>2\<close> with an integer \<open>m\<close> below \<open>2\<^sup>5\<^sup>3\<close> in absolute value and
  \<open>e\<close> from \<open>-1022\<close> to \<open>1023\<close>. The type has a value \<open>Fin r\<close> for every real
  \<open>r\<close>: every double is among them, every operation below gives a double, and what holds
  of every \<open>Fin r\<close> holds of every finite double.
\<close>

datatype jsnum = Fin real | NegZero | PosInf | NegInf | NaN

text \<open>
  The exponent of a positive real \<open>x\<close>: the \<open>e\<close> with \<open>2\<^sup>e \<le> x < 2\<^sup>e\<^sup>+\<^sup>1\<close>, kept from
  \<open>-1022\<close> (below \<open>2\<^sup>-\<^sup>1\<^sup>0\<^sup>2\<^sup>2\<close> the doubles are subnormal, and spaced as those of
  exponent \<open>-1022\<close>) to \<open>1023\<close>. It is found by going up from 0 for \<open>x \<ge> 1\<close> and
  down from 0 otherwise.
\<close>

fun expo_up :: "nat \<Rightarrow> real \<Rightarrow> int \<Rightarrow> int" where
  "expo_up 0 x e = e"
| "expo_up (Suc n) x e = (if x < 2 powi (e + 1) then e else expo_up n x (e + 1))"

fun expo_down :: "nat \<Rightarrow> real \<Rightarrow> int \<Rightarrow> int" where
  "expo_down 0 x e = e"
| "expo_down (Suc n) x e = (if 2 powi e \<le> x then e else expo_down n x (e - 1))"

definition expo :: "real \<Rightarrow> int" where
  "expo x = (if 1 \<le> x then expo_up 1023 x 0 else expo_down 1022 x 0)"

text \<open>The distance between neighbouring doubles at \<open>x\<close>.\<close>

definition ulp :: "real \<Rightarrow> real" where
  "ulp x = 2 powi (expo x - 52)"

text \<open>The nearest integer; of two nearest integers, the even one.\<close>

definition round_half_even :: "real \<Rightarrow> int" where
  "round_half_even m =
     (let f = \<lfloor>m\<rfloor>; d = m - of_int f in
      if d < 1 / 2 then f else if 1 / 2 < d then f + 1 else if even f then f else f + 1)"

text \<open>
  The double nearest to a positive real, ties to even: the result of an arithmetic operation
  whose exact result is \<open>x\<close>. A result of \<open>2\<^sup>1\<^sup>0\<^sup>2\<^sup>4\<close> or more is \<open>+Infinity\<close>.
\<close>

definition rnd_pos :: "real \<Rightarrow> jsnum" where
  "rnd_pos x =
     (let r = round_half_even (x / ulp x) in
      if expo x = 1023 \<and> 2 ^ 53 \<le> r then PosInf else Fin (of_int r * ulp x))"

text \<open>Unary minus.\<close>

fun neg :: "jsnum \<Rightarrow> jsnum" where
  "neg (Fin r) = (if r = 0 then NegZero else Fin (- r))"
| "neg NegZero = Fin 0"
| "neg PosInf = NegInf"
| "neg NegInf = PosInf"
| "neg NaN = NaN"

text \<open>The double nearest to a real. An exact result of zero is \<open>+0\<close>.\<close>

definition rnd :: "real \<Rightarrow> jsnum" where
  "rnd x = (if x = 0 then Fin 0 else if 0 < x then rnd_pos x else neg (rnd_pos (- x)))"

text \<open>\<^verbatim>\<open>a <= b\<close> and \<^verbatim>\<open>a < b\<close>: false when an operand is NaN; the two zeros are equal.\<close>

fun js_le :: "jsnum \<Rightarrow> jsnum \<Rightarrow> bool" where
  "js_le NaN b = False"
| "js_le a NaN = False"
| "js_le NegInf b = True"
| "js_le a PosInf = True"
| "js_le PosInf b = False"
| "js_le a NegInf = False"
| "js_le (Fin x) (Fin y) = (x \<le> y)"
| "js_le (Fin x) NegZero = (x \<le> 0)"
| "js_le NegZero (Fin y) = (0 \<le> y)"
| "js_le NegZero NegZero = True"

definition js_lt :: "jsnum \<Rightarrow> jsnum \<Rightarrow> bool" where
  "js_lt a b = (js_le a b \<and> \<not> js_le b a)"

fun is_inf :: "jsnum \<Rightarrow> bool" where
  "is_inf PosInf = True"
| "is_inf NegInf = True"
| "is_inf a = False"

fun is_zero :: "jsnum \<Rightarrow> bool" where
  "is_zero (Fin r) = (r = 0)"
| "is_zero NegZero = True"
| "is_zero a = False"

text \<open>The sign bit, and the real that a finite number or a zero stands for.\<close>

fun negative :: "jsnum \<Rightarrow> bool" where
  "negative (Fin r) = (r < 0)"
| "negative NegZero = True"
| "negative NegInf = True"
| "negative a = False"

fun number :: "jsnum \<Rightarrow> real" where
  "number (Fin r) = r"
| "number a = 0"

definition signed_inf :: "bool \<Rightarrow> jsnum" where
  "signed_inf below = (if below then NegInf else PosInf)"

definition signed_zero :: "bool \<Rightarrow> jsnum" where
  "signed_zero below = (if below then NegZero else Fin 0)"

text \<open>
  \<^verbatim>\<open>a + b\<close>. Infinities of opposite sign give NaN; \<open>-0 + -0\<close> is \<open>-0\<close>; every other sum
  of finite numbers is the exact sum, rounded.
\<close>

definition js_add :: "jsnum \<Rightarrow> jsnum \<Rightarrow> jsnum" where
  "js_add a b =
     (if a = NaN \<or> b = NaN then NaN
      else if is_inf a then (if is_inf b \<and> a \<noteq> b then NaN else a)
      else if is_inf b then b
      else if a = NegZero \<and> b = NegZero then NegZero
      else rnd (number a + number b))"

text \<open>
  \<^verbatim>\<open>a / b\<close>. The sign of the result is the product of the signs; \<open>\<infinity> / \<infinity>\<close> and
  \<open>0 / 0\<close> are NaN, a number other than zero divided by a zero is an infinity, and a
  quotient of finite numbers other than zero is the exact quotient, rounded.
\<close>

definition js_div :: "jsnum \<Rightarrow> jsnum \<Rightarrow> jsnum" where
  "js_div a b =
     (if a = NaN \<or> b = NaN then NaN
      else if is_inf a then (if is_inf b then NaN else signed_inf (negative a \<noteq> negative b))
      else if is_inf b then signed_zero (negative a \<noteq> negative b)
      else if is_zero b then (if is_zero a then NaN else signed_inf (negative a \<noteq> negative b))
      else if is_zero a then signed_zero (negative a \<noteq> negative b)
      else rnd (number a / number b))"

text \<open>\<^verbatim>\<open>100 * q\<close>.\<close>

fun times100 :: "jsnum \<Rightarrow> jsnum" where
  "times100 (Fin r) = rnd (100 * r)"
| "times100 a = a"

text \<open>\<^verbatim>\<open>Math.min(q, 100)\<close>: NaN if an argument is NaN.\<close>

fun min100 :: "jsnum \<Rightarrow> jsnum" where
  "min100 (Fin r) = Fin (min r 100)"
| "min100 PosInf = Fin 100"
| "min100 a = a"

text \<open>\<^verbatim>\<open>Math.ceil(x)\<close>: \<open>-0\<close> for \<open>x\<close> between \<open>-1\<close> and \<open>0\<close>.\<close>

fun Math_ceil :: "jsnum \<Rightarrow> jsnum" where
  "Math_ceil (Fin r) = (if - 1 < r \<and> r < 0 then NegZero else Fin (real_of_int \<lceil>r\<rceil>))"
| "Math_ceil a = a"

text \<open>
  \<^verbatim>\<open>static perc(n, d) { return Math.ceil(Math.min(100 * (Math.ceil(n) / d), 100)); }\<close>
\<close>

definition perc :: "jsnum \<Rightarrow> jsnum \<Rightarrow> jsnum" where
  "perc n d = Math_ceil (min100 (times100 (js_div (Math_ceil n) d)))"

record Point =
  pt_x :: jsnum
  pt_y :: jsnum

record Dimensions =
  dim_width :: jsnum
  dim_height :: jsnum

record PagingState =
  scrollPosition :: Point
  scrollBox :: Dimensions
  viewportBox :: Dimensions

text \<open>
  \<^verbatim>\<open>visualScrollPercentage(state)\<close>: a \<^verbatim>\<open>Dimensions\<close> of the two percentages.
\<close>

definition visualScrollPercentage :: "PagingState \<Rightarrow> Dimensions" where
  "visualScrollPercentage state =
     \<lparr> dim_width = perc (js_add (pt_x (scrollPosition state)) (dim_width (viewportBox state)))
                         (dim_width (scrollBox state)),
       dim_height = perc (js_add (pt_y (scrollPosition state)) (dim_height (viewportBox state)))
                          (dim_height (scrollBox state)) \<rparr>"

text \<open>
  \<^verbatim>\<open>fullyPaginated(state)\<close>: \<^verbatim>\<open>visualScrollPercentage.height >= 100\<close>.
  \<^verbatim>\<open>Preconditions.assertNotNull(state, "state")\<close> rejects a missing state: \<open>None\<close> is
  that state, and the result is then \<open>None\<close>.
\<close>

definition fullyPaginated :: "PagingState option \<Rightarrow> bool option" where
  "fullyPaginated state =
     (case state of
        None \<Rightarrow> None
      | Some st \<Rightarrow> Some (js_le (Fin 100) (dim_height (visualScrollPercentage st))))"

text \<open>The page state with scroll position \<open>y\<close>, viewport height \<open>vh\<close> and scroll-box height \<open>sh\<close>.\<close>

definition page :: "real \<Rightarrow> real \<Rightarrow> real \<Rightarrow> PagingState" where
  "page y vh sh =
     \<lparr> scrollPosition = \<lparr> pt_x = Fin 0, pt_y = Fin y \<rparr>,
       scrollBox = \<lparr> dim_width = Fin 1000, dim_height = Fin sh \<rparr>,
       viewportBox = \<lparr> dim_width = Fin 1000, dim_height = Fin vh \<rparr> \<rparr>"

section \<open>JavaScript values, objects and the heap\<close>

text \<open>
  \<^verbatim>\<open>src/web/js/proxies/Proxies.js\<close> works on object graphs, so the model has a heap.
  An object is a heap cell: its own properties in insertion order, each a data property with
  the attributes \<^verbatim>\<open>writable\<close>, \<^verbatim>\<open>enumerable\<close> and \<^verbatim>\<open>configurable\<close>, the
  \<^verbatim>\<open>[[Extensible]]\<close> flag, a prototype and a kind (plain object, array or function).
  Accessor properties and proxies as prototypes are outside the model; the built-in prototypes
  are not heap cells (an object with prototype \<open>None\<close> inherits nothing that the tracer
  looks at).

  A proxy value carries its identity, its target and the identity of its handler: both slots
  of a proxy are immutable. Every proxy of the model is one that \<^verbatim>\<open>Proxies.trace\<close> has
  made, so its handler is a \<^verbatim>\<open>TraceHandler\<close>.
\<close>

type_synonym addr = nat

datatype val =
    VUndefined
  | VNull
  | VBool bool
  | VNum int
  | VStr string
  | VSymbol nat
  | VObj addr
  | VProxy nat val nat

datatype fn =
    BoundAddTraceListener nat
  | UserFunction nat

datatype kind = Plain | Array | Function fn

record property =
  p_value :: val
  p_writable :: bool
  p_enumerable :: bool
  p_configurable :: bool

record obj =
  o_props :: "(string \<times> property) list"
  o_extensible :: bool
  o_proto :: "addr option"
  o_kind :: kind

text \<open>
  The object at the end of a chain of proxies. An operation on a proxy for which the handler
  has no trap is the operation on the target.
\<close>

fun raw :: "val \<Rightarrow> val" where
  "raw (VProxy i t hid) = raw t"
| "raw v = v"

text \<open>
  What can end a call early. \<open>Error msg\<close> is \<^verbatim>\<open>throw new Error(msg)\<close> of the source;
  \<open>TypeError\<close> is raised by the runtime (a property defined on a non-extensible object, an
  assignment to a read-only property in strict code, a call of something that is not a
  function). \<open>HandlerTrap\<close>: an assignment to a property of a proxy, which runs the
  \<^verbatim>\<open>set\<close> trap of \<^verbatim>\<open>TraceHandler\<close>; the trap's body is not in
  \<^verbatim>\<open>src/\<close> and the model stops there.
  \<open>BadRef\<close>: a reference to no heap cell, which no JavaScript program can hold.
\<close>

datatype error = Error string | TypeError | HandlerTrap | BadRef

text \<open>A \<^verbatim>\<open>TraceHandler\<close> as its constructor receives it: \<^verbatim>\<open>(path, traceListeners, value)\<close>.\<close>

record handler =
  h_path :: string
  h_listeners :: val
  h_target :: val

text \<open>
  The process state: the module-level \<^verbatim>\<open>let sequence = 0\<close>, the heap, the trace handlers
  and the proxies constructed so far (a proxy's identity is its index, and the entry is its
  target and handler), and the calls made to functions whose bodies are outside
  \<^verbatim>\<open>src/\<close>, as \<open>(function, this, argument)\<close>.

  JavaScript numbers hold integers exactly below \<open>2\<^sup>5\<^sup>3\<close>; the counter is a natural number,
  which is the same below that bound.
\<close>

record state =
  sequence :: nat
  heap :: "obj list"
  handlers :: "handler list"
  proxies :: "(val \<times> nat) list"
  calls :: "(val \<times> val \<times> val) list"

type_synonym 'a result = "(error + 'a) \<times> state"

definition lookup :: "obj list \<Rightarrow> addr \<Rightarrow> obj option" where
  "lookup h a = (if a < length h then Some (h ! a) else None)"

definition alloc :: "obj \<Rightarrow> state \<Rightarrow> val \<times> state" where
  "alloc c s = (VObj (length (heap s)), s\<lparr>heap := heap s @ [c]\<rparr>)"

text \<open>The \<^verbatim>\<open>typeof\<close> operator. \<^verbatim>\<open>typeof null\<close> is \<^verbatim>\<open>"object"\<close>.\<close>

fun typeof :: "obj list \<Rightarrow> val \<Rightarrow> string" where
  "typeof h VUndefined = ''undefined''"
| "typeof h VNull = ''object''"
| "typeof h (VBool b) = ''boolean''"
| "typeof h (VNum n) = ''number''"
| "typeof h (VStr t) = ''string''"
| "typeof h (VSymbol n) = ''symbol''"
| "typeof h (VObj a) =
     (case lookup h a of
        Some c \<Rightarrow> (case o_kind c of Function f \<Rightarrow> ''function'' | _ \<Rightarrow> ''object'')
      | None \<Rightarrow> ''object'')"
| "typeof h (VProxy i t hid) = typeof h t"

text \<open>\<^verbatim>\<open>ToBoolean\<close>, as \<^verbatim>\<open>if (v)\<close> and \<^verbatim>\<open>!v\<close> use it.\<close>

fun truthy :: "val \<Rightarrow> bool" where
  "truthy VUndefined = False"
| "truthy VNull = False"
| "truthy (VBool b) = b"
| "truthy (VNum n) = (n \<noteq> 0)"
| "truthy (VStr t) = (t \<noteq> [])"
| "truthy (VSymbol n) = True"
| "truthy (VObj a) = True"
| "truthy (VProxy i t hid) = True"

text \<open>
  Modelled from the spec: the \<^verbatim>\<open>get\<close> trap of \<^verbatim>\<open>TraceHandler\<close>
  (\<^verbatim>\<open>TraceHandler.js\<close> is not in \<^verbatim>\<open>src/\<close>). "Intercept property reads to support
  transparent pass-through of normal properties": the trap gives what the read of the property
  of the target gives. The handler "intercepts get/set/delete": it has the traps
  \<^verbatim>\<open>get\<close>, \<^verbatim>\<open>set\<close> and \<^verbatim>\<open>deleteProperty\<close> and no other, so
  \<^verbatim>\<open>typeof\<close>, \<^verbatim>\<open>Object.isFrozen\<close>, \<^verbatim>\<open>in\<close>, \<^verbatim>\<open>Object.defineProperty\<close> and a
  call, applied to a proxy, are what they are on its target.
\<close>

definition TraceHandler_get :: "error + val \<Rightarrow> error + val" where
  "TraceHandler_get target_read = target_read"

text \<open>
  \<^verbatim>\<open>Object.isFrozen(v)\<close>: true of every value that is not an object, and of an object that
  is not extensible and whose own properties are all non-configurable and non-writable.
\<close>

definition frozen_obj :: "obj \<Rightarrow> bool" where
  "frozen_obj c =
     (\<not> o_extensible c \<and> list_all (\<lambda>kp. \<not> p_configurable (snd kp) \<and> \<not> p_writable (snd kp)) (o_props c))"

fun isFrozen :: "obj list \<Rightarrow> val \<Rightarrow> error + bool" where
  "isFrozen h (VObj a) = (case lookup h a of None \<Rightarrow> Inl BadRef | Some c \<Rightarrow> Inr (frozen_obj c))"
| "isFrozen h (VProxy i t hid) = isFrozen h t"
| "isFrozen h v = Inr True"

text \<open>
  Property lookup along the prototype chain. A chain of a heap of \<open>n\<close> cells has at most
  \<open>n\<close> objects, so \<open>n\<close> steps reach its end.
\<close>

fun find_prop :: "nat \<Rightarrow> obj list \<Rightarrow> addr \<Rightarrow> string \<Rightarrow> property option" where
  "find_prop 0 h a k = None"
| "find_prop (Suc n) h a k =
     (case lookup h a of
        None \<Rightarrow> None
      | Some c \<Rightarrow>
          (case map_of (o_props c) k of
             Some p \<Rightarrow> Some p
           | None \<Rightarrow> (case o_proto c of None \<Rightarrow> None | Some b \<Rightarrow> find_prop n h b k)))"

text \<open>\<^verbatim>\<open>k in v\<close>.\<close>

fun has_property :: "obj list \<Rightarrow> val \<Rightarrow> string \<Rightarrow> error + bool" where
  "has_property h (VObj a) k =
     (case lookup h a of None \<Rightarrow> Inl BadRef | Some c \<Rightarrow> Inr (find_prop (length h) h a k \<noteq> None))"
| "has_property h (VProxy i t hid) k = has_property h t k"
| "has_property h v k = Inl TypeError"

text \<open>\<^verbatim>\<open>v.k\<close>. On a proxy it is the \<^verbatim>\<open>get\<close> trap, which passes the read through.\<close>

fun get_member :: "obj list \<Rightarrow> val \<Rightarrow> string \<Rightarrow> error + val" where
  "get_member h (VObj a) k =
     (case lookup h a of
        None \<Rightarrow> Inl BadRef
      | Some c \<Rightarrow> Inr (case find_prop (length h) h a k of None \<Rightarrow> VUndefined | Some p \<Rightarrow> p_value p))"
| "get_member h (VProxy i t hid) k = TraceHandler_get (get_member h t k)"
| "get_member h VUndefined k = Inl TypeError"
| "get_member h VNull k = Inl TypeError"
| "get_member h v k = Inr VUndefined"

definition set_own :: "addr \<Rightarrow> obj \<Rightarrow> string \<Rightarrow> property \<Rightarrow> state \<Rightarrow> state" where
  "set_own a c k p s = s\<lparr>heap := (heap s)[a := c\<lparr>o_props := AList.update k p (o_props c)\<rparr>]\<rparr>"

text \<open>
  \<^verbatim>\<open>Object.defineProperty(target, k, {value: v, enumerable: false, writable: false})\<close>:
  the only shape of descriptor the source passes. A new property needs an extensible object
  and has \<^verbatim>\<open>configurable: false\<close>; an existing configurable property is changed; an existing
  non-configurable one cannot become non-enumerable, and if it is read-only it cannot change
  its value.
\<close>

fun defineProperty :: "val \<Rightarrow> string \<Rightarrow> val \<Rightarrow> state \<Rightarrow> error + state" where
  "defineProperty (VObj a) k v s =
     (case lookup (heap s) a of
        None \<Rightarrow> Inl BadRef
      | Some c \<Rightarrow>
          (case map_of (o_props c) k of
             None \<Rightarrow>
               if o_extensible c
               then Inr (set_own a c k \<lparr>p_value = v, p_writable = False, p_enumerable = False,
                                         p_configurable = False\<rparr> s)
               else Inl TypeError
           | Some p \<Rightarrow>
               if p_configurable p
               then Inr (set_own a c k (p\<lparr>p_value := v, p_writable := False, p_enumerable := False\<rparr>) s)
               else if p_enumerable p then Inl TypeError
               else if p_writable p
               then Inr (set_own a c k (p\<lparr>p_value := v, p_writable := False\<rparr>) s)
               else if p_value p = v then Inr s
               else Inl TypeError))"
| "defineProperty (VProxy i t hid) k v s = defineProperty t k v s"
| "defineProperty target k v s = Inl TypeError"

text \<open>
  \<^verbatim>\<open>target[k] = v\<close> in strict code (a class body is strict code): an own writable property
  takes the value; a read-only property, own or inherited, raises; otherwise the property is
  created if the object is extensible. On a proxy the assignment runs the \<^verbatim>\<open>set\<close> trap.
\<close>

fun assign :: "val \<Rightarrow> string \<Rightarrow> val \<Rightarrow> state \<Rightarrow> error + state" where
  "assign (VObj a) k v s =
     (case lookup (heap s) a of
        None \<Rightarrow> Inl BadRef
      | Some c \<Rightarrow>
          (case map_of (o_props c) k of
             Some p \<Rightarrow> if p_writable p then Inr (set_own a c k (p\<lparr>p_value := v\<rparr>) s) else Inl TypeError
           | None \<Rightarrow>
               if (case find_prop (length (heap s)) (heap s) a k of
                     None \<Rightarrow> True | Some p \<Rightarrow> p_writable p) \<and> o_extensible c
               then Inr (set_own a c k \<lparr>p_value = v, p_writable = True, p_enumerable = True,
                                         p_configurable = True\<rparr> s)
               else Inl TypeError))"
| "assign (VProxy i t hid) k v s = Inl HandlerTrap"
| "assign target k v s = Inl TypeError"

text \<open>
  \<^verbatim>\<open>f.call(this, arg)\<close> for a function whose body is outside \<^verbatim>\<open>src/\<close>: the call is
  recorded. A value that is not a function raises. A call of a proxy is a call of its target.
\<close>

fun call_method :: "val \<Rightarrow> val \<Rightarrow> val \<Rightarrow> state \<Rightarrow> error + state" where
  "call_method (VObj b) this arg s =
     (case lookup (heap s) b of
        None \<Rightarrow> Inl BadRef
      | Some c \<Rightarrow>
          (case o_kind c of
             Function f \<Rightarrow> Inr (s\<lparr>calls := calls s @ [(VObj b, this, arg)]\<rparr>)
           | _ \<Rightarrow> Inl TypeError))"
| "call_method (VProxy i t hid) this arg s = call_method t this arg s"
| "call_method f this arg s = Inl TypeError"

section \<open>Collaborators of Proxies\<close>

text \<open>
  \<^verbatim>\<open>Proxies.js\<close> requires \<^verbatim>\<open>TraceListeners\<close>, \<^verbatim>\<open>Objects\<close>, \<^verbatim>\<open>TraceHandler\<close>,
  \<^verbatim>\<open>ObjectPaths\<close> and \<^verbatim>\<open>Paths\<close>; none of them is in \<^verbatim>\<open>src/\<close>.
  \<^verbatim>\<open>Paths.create\<close> and \<^verbatim>\<open>ObjectPaths.recurse\<close> are parameters of \<open>create\<close>.
\<close>

definition empty_array :: obj where
  "empty_array =
     \<lparr> o_props = [(''length'', \<lparr>p_value = VNum 0, p_writable = True, p_enumerable = False,
                                   p_configurable = False\<rparr>)],
       o_extensible = True, o_proto = None, o_kind = Array \<rparr>"

definition singleton_array :: "val \<Rightarrow> obj" where
  "singleton_array v =
     \<lparr> o_props = [(''0'', \<lparr>p_value = v, p_writable = True, p_enumerable = True,
                              p_configurable = True\<rparr>),
                  (''length'', \<lparr>p_value = VNum 1, p_writable = True, p_enumerable = False,
                                   p_configurable = False\<rparr>)],
       o_extensible = True, o_proto = None, o_kind = Array \<rparr>"

fun isArray :: "obj list \<Rightarrow> val \<Rightarrow> bool" where
  "isArray h (VObj a) = (case lookup h a of None \<Rightarrow> False | Some c \<Rightarrow> o_kind c = Array)"
| "isArray h (VProxy i t hid) = isArray h t"
| "isArray h v = False"

text \<open>
  Modelled from the spec: \<^verbatim>\<open>TraceListeners.asArray\<close> (\<^verbatim>\<open>TraceListeners.js\<close> is not in
  \<^verbatim>\<open>src/\<close>). "Identity if already a list, wraps a single listener into a one-element list,
  empty input yields empty list." An empty input is \<^verbatim>\<open>undefined\<close> or \<^verbatim>\<open>null\<close>; a new
  list is a new array on the heap.
\<close>

definition asArray :: "val \<Rightarrow> state \<Rightarrow> val \<times> state" where
  "asArray input s =
     (if input = VUndefined \<or> input = VNull then alloc empty_array s
      else if isArray (heap s) input then (input, s)
      else alloc (singleton_array input) s)"

text \<open>
  Modelled from the spec: \<^verbatim>\<open>Objects.defaults\<close> (\<^verbatim>\<open>Objects.js\<close> is not in \<^verbatim>\<open>src/\<close>).
  "Shallow-merges caller-supplied options over defaults." The options are the
  \<^verbatim>\<open>pathPrefix\<close> the caller supplied, if any; the result is the \<^verbatim>\<open>pathPrefix\<close> of
  the merged options.
\<close>

definition Objects_defaults :: "string option \<Rightarrow> string \<Rightarrow> string" where
  "Objects_defaults opts dflt = (case opts of None \<Rightarrow> dflt | Some pathPrefix \<Rightarrow> pathPrefix)"

text \<open>
  \<^verbatim>\<open>new TraceHandler(path, traceListeners, value, Proxies)\<close>. The constructor's body is
  outside \<^verbatim>\<open>src/\<close>; the handler is recorded with its arguments.
\<close>

definition new_TraceHandler :: "string \<Rightarrow> val \<Rightarrow> val \<Rightarrow> state \<Rightarrow> nat \<times> state" where
  "new_TraceHandler path listeners value s =
     (length (handlers s),
      s\<lparr>handlers := handlers s @ [\<lparr>h_path = path, h_listeners = listeners, h_target = value\<rparr>]\<rparr>)"

text \<open>\<^verbatim>\<open>traceHandler.addTraceListener.bind(traceHandler)\<close>: a new function object.\<close>

definition bound_function :: "nat \<Rightarrow> obj" where
  "bound_function hid =
     \<lparr> o_props = [], o_extensible = True, o_proto = None,
       o_kind = Function (BoundAddTraceListener hid) \<rparr>"

definition bind_addTraceListener :: "nat \<Rightarrow> state \<Rightarrow> val \<times> state" where
  "bind_addTraceListener hid s = alloc (bound_function hid) s"

text \<open>\<^verbatim>\<open>new Proxy(target, handler)\<close>: the target must be an object.\<close>

fun new_Proxy :: "val \<Rightarrow> nat \<Rightarrow> state \<Rightarrow> val result" where
  "new_Proxy (VObj a) hid s =
     (Inr (VProxy (length (proxies s)) (VObj a) hid), s\<lparr>proxies := proxies s @ [(VObj a, hid)]\<rparr>)"
| "new_Proxy (VProxy i t h0) hid s =
     (Inr (VProxy (length (proxies s)) (VProxy i t h0) hid),
      s\<lparr>proxies := proxies s @ [(VProxy i t h0, hid)]\<rparr>)"
| "new_Proxy target hid s = (Inl TypeError, s)"

section \<open>Proxies.trace\<close>

text \<open>
  \<^verbatim>\<open>privateMembers.forEach(privateMember => { if (!(privateMember.name in value))
  Object.defineProperty(value, privateMember.name, {value: privateMember.value,
  enumerable: false, writable: false}) })\<close>
\<close>

fun privateMembers_forEach :: "(string \<times> val) list \<Rightarrow> val \<Rightarrow> state \<Rightarrow> unit result" where
  "privateMembers_forEach [] value s = (Inr (), s)"
| "privateMembers_forEach ((name, v) # ms) value s =
     (case has_property (heap s) value name of
        Inl e \<Rightarrow> (Inl e, s)
      | Inr True \<Rightarrow> privateMembers_forEach ms value s
      | Inr False \<Rightarrow>
          (case defineProperty value name v s of
             Inl e \<Rightarrow> (Inl e, s)
           | Inr s' \<Rightarrow> privateMembers_forEach ms value s'))"

text \<open>
  \<^verbatim>\<open>if (value.addTraceListener) { value.addTraceListener(traceListeners) } else {
  Object.defineProperty(value, "addTraceListener", {value:
  traceHandler.addTraceListener.bind(traceHandler), enumerable: false, writable: false}) }\<close>
\<close>

definition attach_listeners :: "val \<Rightarrow> val \<Rightarrow> nat \<Rightarrow> state \<Rightarrow> unit result" where
  "attach_listeners value listeners hid s =
     (case get_member (heap s) value ''addTraceListener'' of
        Inl e \<Rightarrow> (Inl e, s)
      | Inr f \<Rightarrow>
          if truthy f
          then (case call_method f value listeners s of
                  Inl e \<Rightarrow> (Inl e, s)
                | Inr s' \<Rightarrow> (Inr (), s'))
          else (case bind_addTraceListener hid s of
                  (b, s1) \<Rightarrow>
                    (case defineProperty value ''addTraceListener'' b s1 of
                       Inl e \<Rightarrow> (Inl e, s1)
                     | Inr s2 \<Rightarrow> (Inr (), s2))))"

text \<open>
  Lines 88 to 144 of \<^verbatim>\<open>Proxies.trace\<close>, what it does with a value that is not frozen:
  the handler, the three private members (\<open>next_sequence\<close> is the \<^verbatim>\<open>sequence++\<close>
  evaluated while the array literal is built), the listener registration, the proxy.
\<close>

definition next_sequence :: "state \<Rightarrow> nat \<times> state" where
  "next_sequence s = (sequence s, s\<lparr>sequence := Suc (sequence s)\<rparr>)"

definition privateMembers :: "nat \<Rightarrow> val \<Rightarrow> string \<Rightarrow> (string \<times> val) list" where
  "privateMembers ident listeners path =
     [(''__traceIdentifier'', VNum (int ident)),
      (''__traceListeners'', listeners),
      (''__path'', VStr path)]"

definition trace_object :: "string \<Rightarrow> val \<Rightarrow> val \<Rightarrow> state \<Rightarrow> val result" where
  "trace_object path value listeners s1 =
     (case new_TraceHandler path listeners value s1 of
        (hid, s2) \<Rightarrow>
          (case next_sequence s2 of
             (ident, s3) \<Rightarrow>
               (case privateMembers_forEach (privateMembers ident listeners path) value s3 of
                  (Inl e, s4) \<Rightarrow> (Inl e, s4)
                | (Inr u, s4) \<Rightarrow>
                    (case attach_listeners value listeners hid s4 of
                       (Inl e, s5) \<Rightarrow> (Inl e, s5)
                     | (Inr u', s5) \<Rightarrow> new_Proxy value hid s5))))"

text \<open>\<^verbatim>\<open>static trace(path, value, traceListeners)\<close>\<close>

definition trace :: "string \<Rightarrow> val \<Rightarrow> val \<Rightarrow> state \<Rightarrow> val result" where
  "trace path value traceListeners s =
     (if typeof (heap s) value \<noteq> ''object''
      then (Inl (Error ''We can only trace object types.''), s)
      else
        (case asArray traceListeners s of
           (listeners, s1) \<Rightarrow>
             (case isFrozen (heap s1) value of
                Inl e \<Rightarrow> (Inl e, s1)
              | Inr True \<Rightarrow> (Inr value, s1)
              | Inr False \<Rightarrow> trace_object path value listeners s1)))"

section \<open>Proxies.create\<close>

text \<open>A record of \<^verbatim>\<open>ObjectPaths.recurse\<close>: \<^verbatim>\<open>{path, value, parent, parentKey}\<close>.\<close>

record entry =
  e_path :: string
  e_value :: val
  e_parent :: val
  e_parentKey :: string

text \<open>
  The callback of \<^verbatim>\<open>objectPathEntries.forEach\<close>. It reads \<^verbatim>\<open>opts.pathPrefix\<close> and
  \<^verbatim>\<open>traceListeners\<close>, and reads and writes \<^verbatim>\<open>root\<close>; the result is the new
  \<^verbatim>\<open>root\<close>. \<^verbatim>\<open>parent != null\<close> is false of \<^verbatim>\<open>null\<close> and of \<^verbatim>\<open>undefined\<close>.
\<close>

definition create_entry ::
  "(string \<Rightarrow> string \<Rightarrow> string) \<Rightarrow> string \<Rightarrow> val \<Rightarrow> entry \<Rightarrow> val \<Rightarrow> state \<Rightarrow> val result" where
  "create_entry Paths_create pathPrefix listeners e root0 s =
     (case trace (if pathPrefix \<noteq> '''' then Paths_create pathPrefix (e_path e) else e_path e)
                 (e_value e) listeners s of
        (Inl err, s1) \<Rightarrow> (Inl err, s1)
      | (Inr proxy, s1) \<Rightarrow>
          if e_parent e \<noteq> VNull \<and> e_parent e \<noteq> VUndefined
          then (case assign (e_parent e) (e_parentKey e) proxy s1 of
                  Inl err \<Rightarrow> (Inl err, s1)
                | Inr s2 \<Rightarrow> (Inr root0, s2))
          else (Inr proxy, s1))"

fun forEach_entry ::
  "(string \<Rightarrow> string \<Rightarrow> string) \<Rightarrow> string \<Rightarrow> val \<Rightarrow> entry list \<Rightarrow> val \<Rightarrow> state \<Rightarrow> val result" where
  "forEach_entry Paths_create pathPrefix listeners [] root0 s = (Inr root0, s)"
| "forEach_entry Paths_create pathPrefix listeners (e # es) root0 s =
     (case create_entry Paths_create pathPrefix listeners e root0 s of
        (Inl err, s1) \<Rightarrow> (Inl err, s1)
      | (Inr root1, s1) \<Rightarrow> forEach_entry Paths_create pathPrefix listeners es root1 s1)"

text \<open>
  \<^verbatim>\<open>static create(target, traceListeners, opts)\<close>. \<open>ObjectPaths_recurse\<close> reads the heap
  and the target and gives the records.
\<close>

definition create ::
  "(string \<Rightarrow> string \<Rightarrow> string) \<Rightarrow> (obj list \<Rightarrow> val \<Rightarrow> entry list) \<Rightarrow>
     val \<Rightarrow> val \<Rightarrow> string option \<Rightarrow> state \<Rightarrow> val result" where
  "create Paths_create ObjectPaths_recurse target traceListeners opts s =
     (if typeof (heap s) target \<noteq> ''object''
      then (Inl (Error (''Only works on objects: '' @ typeof (heap s) target)), s)
      else
        (case (if \<not> truthy traceListeners then alloc empty_array s else (traceListeners, s)) of
           (listeners0, s0) \<Rightarrow>
             (case asArray listeners0 s0 of
                (listeners, s1) \<Rightarrow>
                  forEach_entry Paths_create (Objects_defaults opts '''') listeners
                    (ObjectPaths_recurse (heap s1) target) VNull s1)))"

section \<open>Trace identifiers in the heap\<close>

text \<open>The number that an object carries as its own \<^verbatim>\<open>__traceIdentifier\<close>, if any.\<close>

definition own_identifier :: "obj \<Rightarrow> int option" where
  "own_identifier c =
     (case map_of (o_props c) ''__traceIdentifier'' of
        None \<Rightarrow> None
      | Some p \<Rightarrow> (case p_value p of VNum n \<Rightarrow> Some n | _ \<Rightarrow> None))"

text \<open>
  Every identifier in the heap is below the counter, and no two objects carry the same
  identifier.
\<close>

definition identifiers_unique :: "state \<Rightarrow> bool" where
  "identifiers_unique s =
     list_all
       (\<lambda>i. case own_identifier (heap s ! i) of
              None \<Rightarrow> True
            | Some n \<Rightarrow>
                n < int (sequence s) \<and>
                list_all (\<lambda>j. j = i \<or> own_identifier (heap s ! j) \<noteq> Some n)
                  [0..<length (heap s)])
       [0..<length (heap s)]"

text \<open>
  From heap \<open>h\<close> to heap \<open>h'\<close> no identifier has changed and no new cell has one.
\<close>

definition identifiers_kept :: "obj list \<Rightarrow> obj list \<Rightarrow> bool" where
  "identifiers_kept h h' =
     (length h \<le> length h'
      \<and> (\<forall>i < length h'. own_identifier (h' ! i) = (if i < length h then own_identifier (h ! i) else None)))"

section \<open>Example heaps\<close>

text \<open>The state of a process that has loaded the module and allocated nothing.\<close>

definition initial_state :: state where
  "initial_state = \<lparr> sequence = 0, heap = [], handlers = [], proxies = [], calls = [] \<rparr>"

text \<open>An object literal \<^verbatim>\<open>{k: v, ...}\<close>, and \<^verbatim>\<open>Object.freeze\<close> and \<^verbatim>\<open>Object.seal\<close> of an object.\<close>

definition object_literal :: "(string \<times> val) list \<Rightarrow> obj" where
  "object_literal kvs =
     \<lparr> o_props = map (\<lambda>kv. (fst kv, \<lparr>p_value = snd kv, p_writable = True, p_enumerable = True,
                                         p_configurable = True\<rparr>)) kvs,
       o_extensible = True, o_proto = None, o_kind = Plain \<rparr>"

definition freeze :: "obj \<Rightarrow> obj" where
  "freeze c =
     c\<lparr> o_props := map (\<lambda>kp. (fst kp, (snd kp)\<lparr>p_writable := False, p_configurable := False\<rparr>))
                        (o_props c),
        o_extensible := False \<rparr>"

definition seal :: "obj \<Rightarrow> obj" where
  "seal c =
     c\<lparr> o_props := map (\<lambda>kp. (fst kp, (snd kp)\<lparr>p_configurable := False\<rparr>)) (o_props c),
        o_extensible := False \<rparr>"

text \<open>A process whose heap holds the given objects.\<close>

definition with_heap :: "obj list \<Rightarrow> state" where
  "with_heap h = initial_state\<lparr>heap := h\<rparr>"

text \<open>
  An object \<^verbatim>\<open>{a: 1}\<close> at address 0 and an empty list of listeners at address 1; the same
  with the object frozen, and with the object sealed; and the first state after
  \<^verbatim>\<open>Proxies.trace("/", object, listeners)\<close>.
\<close>

definition example_state :: state where
  "example_state = with_heap [object_literal [(''a'', VNum 1)], empty_array]"

definition frozen_state :: state where
  "frozen_state = with_heap [freeze (object_literal [(''a'', VNum 1)]), empty_array]"

definition sealed_state :: state where
  "sealed_state = with_heap [seal (object_literal [(''a'', VNum 1)]), empty_array]"

definition traced_once :: state where
  "traced_once = snd (trace ''/'' (VObj 0) (VObj 1) example_state)"

text \<open>An object \<^verbatim>\<open>{addTraceListener: 1}\<close> at address 0 and an empty list of listeners at
  address 1.\<close>

definition numbered_state :: state where
  "numbered_state = with_heap [object_literal [(''addTraceListener'', VNum 1)], empty_array]"

text \<open>A frozen \<^verbatim>\<open>{a: 1}\<close> at address 0, an empty list of listeners at address 1 and an
  object \<^verbatim>\<open>{b: 2}\<close> at address 2.\<close>

definition mixed_state :: state where
  "mixed_state =
     with_heap [freeze (object_literal [(''a'', VNum 1)]), empty_array,
                object_literal [(''b'', VNum 2)]]"

text \<open>
  A graph: \<^verbatim>\<open>{a: {b: 1}}\<close> at address 0, its child \<^verbatim>\<open>{b: 1}\<close> at address 1, and an
  empty list of listeners at address 2; the same with the parent frozen; the records of
  a walk of the graph, root first; and a join of paths for the examples.
\<close>

definition tree_state :: state where
  "tree_state =
     with_heap [object_literal [(''a'', VObj 1)], object_literal [(''b'', VNum 1)], empty_array]"

definition frozen_tree_state :: state where
  "frozen_tree_state =
     with_heap [freeze (object_literal [(''a'', VObj 1)]), object_literal [(''b'', VNum 1)],
                empty_array]"

definition tree_entries :: "entry list" where
  "tree_entries =
     [\<lparr>e_path = ''/'', e_value = VObj 0, e_parent = VNull, e_parentKey = ''''\<rparr>,
      \<lparr>e_path = ''/a'', e_value = VObj 1, e_parent = VObj 0, e_parentKey = ''a''\<rparr>]"

definition join_paths :: "string \<Rightarrow> string \<Rightarrow> string" where
  "join_paths prefix path = prefix @ path"

section \<open>PagingBrowser: rounding\<close>

text \<open>The equations that evaluate the exponent of a given number.\<close>

lemma expo_up_numeral:
  "expo_up (numeral k) x e = (if x < 2 powi (e + 1) then e else expo_up (pred_numeral k) x (e + 1))"
  by (simp add: numeral_eq_Suc)

lemma expo_down_numeral:
  "expo_down (numeral k) x e = (if 2 powi e \<le> x then e else expo_down (pred_numeral k) x (e - 1))"
  by (simp add: numeral_eq_Suc)

text \<open>The definitions that an evaluation of an arithmetic operation unfolds.\<close>

lemmas double_defs = rnd_def rnd_pos_def ulp_def expo_def round_half_even_def Let_def
  expo_up_numeral expo_down_numeral

text \<open>The exponent that the search finds is the exponent of the number.\<close>

lemma expo_up_spec:
  assumes "2 powi e \<le> x"
  shows "e \<le> expo_up n x e \<and> expo_up n x e \<le> e + int n \<and> 2 powi (expo_up n x e) \<le> x
         \<and> (expo_up n x e < e + int n \<longrightarrow> x < 2 powi (expo_up n x e + 1))"
  using assms
proof (induction n arbitrary: e)
  case 0
  then show ?case by simp
next
  case (Suc n)
  show ?case
  proof (cases "x < 2 powi (e + 1)")
    case True
    with Suc.prems show ?thesis by simp
  next
    case False
    then have "2 powi (e + 1) \<le> x" by simp
    from Suc.IH [OF this] False show ?thesis by simp
  qed
qed

lemma expo_down_spec:
  assumes "x < 2 powi (e + 1)"
  shows "e - int n \<le> expo_down n x e \<and> expo_down n x e \<le> e
         \<and> x < 2 powi (expo_down n x e + 1)
         \<and> (e - int n < expo_down n x e \<longrightarrow> 2 powi (expo_down n x e) \<le> x)"
  using assms
proof (induction n arbitrary: e)
  case 0
  then show ?case by simp
next
  case (Suc n)
  show ?case
  proof (cases "2 powi e \<le> x")
    case True
    with Suc.prems show ?thesis by simp
  next
    case False
    then have "x < 2 powi (e - 1 + 1)" by simp
    from Suc.IH [OF this] False show ?thesis by simp
  qed
qed

lemma expo_range: "- 1022 \<le> expo x" "expo x \<le> 1023"
proof -
  have "- 1022 \<le> expo x \<and> expo x \<le> 1023"
  proof (cases "1 \<le> x")
    case True
    then have "2 powi 0 \<le> x" by simp
    from expo_up_spec [OF this, of 1023] True show ?thesis by (simp add: expo_def)
  next
    case False
    then have "x < 2 powi (0 + 1)" by simp
    from expo_down_spec [OF this, of 1022] False show ?thesis by (simp add: expo_def)
  qed
  then show "- 1022 \<le> expo x" "expo x \<le> 1023" by simp_all
qed

lemma expo_lower:
  assumes "- 1022 < expo x"
  shows "2 powi (expo x) \<le> x"
proof (cases "1 \<le> x")
  case True
  then have "2 powi 0 \<le> x" by simp
  from expo_up_spec [OF this, of 1023] True show ?thesis by (simp add: expo_def)
next
  case False
  then have "x < 2 powi (0 + 1)" by simp
  from expo_down_spec [OF this, of 1022] False assms show ?thesis by (simp add: expo_def)
qed

lemma expo_upper:
  assumes "expo x < 1023"
  shows "x < 2 powi (expo x + 1)"
proof (cases "1 \<le> x")
  case True
  then have "2 powi 0 \<le> x" by simp
  from expo_up_spec [OF this, of 1023] True assms show ?thesis by (simp add: expo_def)
next
  case False
  then have "x < 2 powi (0 + 1)" by simp
  from expo_down_spec [OF this, of 1022] False show ?thesis by (simp add: expo_def)
qed

lemma expo_mono:
  assumes "x \<le> y"
  shows "expo x \<le> expo y"
proof (rule ccontr)
  assume "\<not> expo x \<le> expo y"
  then have lt: "expo y < expo x" by simp
  with expo_range(1) [of y] have "- 1022 < expo x" by simp
  from expo_lower [OF this] have a: "2 powi (expo x) \<le> x" .
  from lt expo_range(2) [of x] have "expo y < 1023" by simp
  from expo_upper [OF this] have b: "y < 2 powi (expo y + 1)" .
  from lt have "(2::real) powi (expo y + 1) \<le> 2 powi (expo x)"
    by (intro power_int_increasing) simp_all
  with a b assms show False by simp
qed

lemma two_powi_split: "(2::real) powi e = 2 ^ n * 2 powi (e - int n)"
proof -
  have "e = int n + (e - int n)" by simp
  then have "(2::real) powi e = 2 powi (int n + (e - int n))" by (rule arg_cong)
  also have "\<dots> = 2 powi (int n) * 2 powi (e - int n)"
    by (rule power_int_add) simp
  finally show ?thesis by simp
qed

lemma ulp_pos: "0 < ulp x"
  by (simp add: ulp_def)

lemma round_half_even_bounds: "\<lfloor>m\<rfloor> \<le> round_half_even m" "round_half_even m \<le> \<lfloor>m\<rfloor> + 1"
  by (simp_all add: round_half_even_def Let_def)

lemma round_half_even_of_int: "round_half_even (of_int n) = n"
  by (simp add: round_half_even_def)

lemma round_half_even_mono:
  assumes "a \<le> b"
  shows "round_half_even a \<le> round_half_even b"
proof (cases "\<lfloor>a\<rfloor> = \<lfloor>b\<rfloor>")
  case True
  with assms show ?thesis
    by (auto simp: round_half_even_def Let_def)
next
  case False
  with floor_mono [OF assms] have "\<lfloor>a\<rfloor> + 1 \<le> \<lfloor>b\<rfloor>" by simp
  with round_half_even_bounds(2) [of a] round_half_even_bounds(1) [of b] show ?thesis by simp
qed

lemma round_half_even_ge:
  assumes "of_int n \<le> a"
  shows "n \<le> round_half_even a"
  using round_half_even_mono [OF assms] by (simp add: round_half_even_of_int)

lemma round_half_even_le:
  assumes "a \<le> of_int n"
  shows "round_half_even a \<le> n"
  using round_half_even_mono [OF assms] by (simp add: round_half_even_of_int)

text \<open>Rounding is monotone.\<close>

lemma rnd_pos_mono:
  assumes "0 < x" and "x \<le> y"
  shows "js_le (rnd_pos x) (rnd_pos y)"
proof -
  let ?rx = "round_half_even (x / ulp x)" and ?ry = "round_half_even (y / ulp y)"
  from expo_mono [OF assms(2)] have le: "expo x \<le> expo y" .
  show ?thesis
  proof (cases "expo x = expo y")
    case True
    then have u: "ulp x = ulp y" by (simp add: ulp_def)
    from assms(2) ulp_pos [of y] have "x / ulp y \<le> y / ulp y"
      by (simp add: divide_right_mono)
    then have r: "?rx \<le> ?ry" unfolding u by (rule round_half_even_mono)
    then have "real_of_int ?rx * ulp y \<le> real_of_int ?ry * ulp y"
      using ulp_pos [of y] by simp
    with r True u show ?thesis
      by (auto simp: rnd_pos_def Let_def)
  next
    case False
    with le have lt: "expo x < expo y" by simp
    with expo_range(2) [of y] have nx: "expo x < 1023" by simp
    from expo_upper [OF nx] have "x < 2 powi (expo x + 1)" .
    also have "(2::real) powi (expo x + 1) = 2 ^ 53 * 2 powi (expo x - 52)"
      using two_powi_split [of "expo x + 1" 53] by simp
    finally have xb: "x < 2 ^ 53 * ulp x" by (simp add: ulp_def)
    then have "x / ulp x \<le> of_int (2 ^ 53)"
      using ulp_pos [of x] by (simp add: pos_divide_le_eq)
    then have "?rx \<le> 2 ^ 53" by (rule round_half_even_le)
    then have "real_of_int ?rx * ulp x \<le> 2 ^ 53 * ulp x"
      using ulp_pos [of x] by simp
    also have "2 ^ 53 * ulp x = 2 powi (expo x + 1)"
      using two_powi_split [of "expo x + 1" 53] by (simp add: ulp_def)
    also from lt have "(2::real) powi (expo x + 1) \<le> 2 powi (expo y)"
      by (intro power_int_increasing) simp_all
    finally have vx: "real_of_int ?rx * ulp x \<le> 2 powi (expo y)" .
    from lt expo_range(1) [of x] have "- 1022 < expo y" by simp
    from expo_lower [OF this] have yl: "2 powi (expo y) \<le> y" .
    have split: "(2::real) powi (expo y) = 2 ^ 52 * ulp y"
      using two_powi_split [of "expo y" 52] by (simp add: ulp_def)
    from yl split have "of_int (2 ^ 52) \<le> y / ulp y"
      using ulp_pos [of y] by (simp add: pos_le_divide_eq)
    then have "2 ^ 52 \<le> ?ry" by (rule round_half_even_ge)
    then have "2 ^ 52 * ulp y \<le> real_of_int ?ry * ulp y"
      using ulp_pos [of y] by simp
    with split vx have "real_of_int ?rx * ulp x \<le> real_of_int ?ry * ulp y" by simp
    with nx show ?thesis
      by (auto simp: rnd_pos_def Let_def)
  qed
qed

lemma rnd_mono_pos:
  assumes "0 < x" and "x \<le> y"
  shows "js_le (rnd x) (rnd y)"
  using rnd_pos_mono [OF assms] assms by (simp add: rnd_def)

lemma rnd_1: "rnd 1 = Fin 1"
  by (simp add: double_defs)

lemma rnd_100: "rnd 100 = Fin 100"
  by (simp add: double_defs)


section \<open>PagingBrowser: results\<close>

lemma js_le_Fin_cases:
  assumes "js_le (Fin k) v" and "0 < k"
  shows "v = PosInf \<or> (\<exists>y. v = Fin y \<and> k \<le> y)"
  using assms by (cases v) auto

lemma rnd_ge:
  assumes "rnd k = Fin k" and "0 < k" and "k \<le> x"
  shows "rnd x = PosInf \<or> (\<exists>y. rnd x = Fin y \<and> k \<le> y)"
proof -
  from rnd_mono_pos [OF assms(2,3)] assms(1) have "js_le (Fin k) (rnd x)" by simp
  from this assms(2) show ?thesis by (rule js_le_Fin_cases)
qed

lemma min100_le: "v \<noteq> NaN \<Longrightarrow> js_le (Math_ceil (min100 v)) (Fin 100)"
  by (cases v) (auto simp: ceiling_le_iff)

lemma min100_not_above: "\<not> js_lt (Fin 100) (Math_ceil (min100 v))"
  by (cases v) (auto simp: js_lt_def ceiling_le_iff)

lemma ceil_min100_ge: "js_le (Fin 100) (Math_ceil (min100 v)) \<longleftrightarrow> js_lt (Fin 99) v"
proof (cases v)
  case (Fin z)
  have "100 \<le> \<lceil>min z 100\<rceil> \<longleftrightarrow> 99 < z"
    by (simp add: le_ceiling_iff)
  moreover have "\<not> (- 1 < min z 100 \<and> min z 100 < 0) \<or> \<not> 99 < z" by auto
  ultimately show ?thesis using Fin by (auto simp: js_lt_def)
qed (simp_all add: js_lt_def)

lemma js_div_not_NaN:
  assumes "c \<noteq> NaN" and "0 < d" and "\<not> is_inf c"
  shows "js_div c (Fin d) \<noteq> NaN"
proof -
  have "rnd x \<noteq> NaN" for x
    by (cases "rnd_pos \<bar>x\<bar>") (auto simp: rnd_def rnd_pos_def Let_def split: if_splits)
  with assms show ?thesis
    by (auto simp: js_div_def signed_inf_def signed_zero_def)
qed


lemma perc_100:
  assumes "0 < d" and "js_le (Fin d) c"
  shows "Math_ceil (min100 (times100 (js_div c (Fin d)))) = Fin 100"
proof -
  from js_le_Fin_cases [OF assms(2,1)] show ?thesis
  proof (elim disjE exE conjE)
    assume "c = PosInf"
    with assms(1) show ?thesis by (simp add: js_div_def signed_inf_def)
  next
    fix x assume c: "c = Fin x" and x: "d \<le> x"
    with assms(1) have q: "js_div c (Fin d) = rnd (x / d)" and "1 \<le> x / d"
      by (simp_all add: js_div_def)
    from rnd_ge [OF rnd_1 zero_less_one this(2)]
    have "times100 (rnd (x / d)) = PosInf
          \<or> (\<exists>z. times100 (rnd (x / d)) = Fin z \<and> 100 \<le> z)"
    proof (elim disjE exE conjE)
      assume "rnd (x / d) = PosInf"
      then show ?thesis by simp
    next
      fix y assume y: "rnd (x / d) = Fin y" "1 \<le> y"
      then have "100 \<le> 100 * y" by simp
      moreover have "(0::real) < 100" by simp
      ultimately have "rnd (100 * y) = PosInf \<or> (\<exists>z. rnd (100 * y) = Fin z \<and> 100 \<le> z)"
        by (intro rnd_ge [OF rnd_100])
      with y(1) show ?thesis by simp
    qed
    then show ?thesis
      by (auto simp: q ceiling_eq_iff)
  qed
qed

text \<open>The definitions that an evaluation of \<open>fullyPaginated\<close> unfolds.\<close>

lemmas paging_defs = fullyPaginated_def visualScrollPercentage_def page_def perc_def
  js_add_def js_div_def js_lt_def signed_inf_def signed_zero_def

text \<open>
  The arithmetic is that of doubles: \<^verbatim>\<open>perc(7, 100)\<close> is 8, since \<^verbatim>\<open>100 * (7 / 100)\<close>
  is the double above 7; and with a scroll-box height of \<^verbatim>\<open>3.0303030303030303\<close>, a
  double below \<open>100 / 33\<close>, \<^verbatim>\<open>perc(3, height)\<close> is 99.
\<close>

lemma perc_rounding_examples:
  "perc (Fin 7) (Fin 100) = Fin 8"
  "perc (Fin 3) (Fin (3411817899523103 / 2 ^ 50)) = Fin 99"
  by (simp_all add: paging_defs double_defs)

text \<open>
  Claim C10, as amended. For every numerator and every finite positive denominator,
  \<open>perc\<close> does not exceed 100 (it is at most 100 unless the numerator is NaN), and it is
  exactly 100 whenever \<open>ceil(n)\<close> is at least \<open>d\<close>. Consequently, for a scroll box of
  positive height, \<open>fullyPaginated\<close> is true whenever the scroll position plus the viewport
  height reaches the scroll-box height; and it is true exactly when
  \<^verbatim>\<open>100 * (Math.ceil(y + viewport height) / scroll-box height)\<close>, as the doubles give it,
  exceeds 99: the outer \<^verbatim>\<open>Math.ceil\<close> takes every percentage above 99 to 100.
\<close>

theorem perc_upper_bound_and_fullyPaginated:
  assumes "0 < d" and "dim_height (scrollBox st) = Fin d"
  shows "\<not> js_lt (Fin 100) (perc n (Fin d))
       \<and> (n \<noteq> NaN \<longrightarrow> js_le (perc n (Fin d)) (Fin 100))
       \<and> (js_le (Fin d) (Math_ceil n) \<longrightarrow> perc n (Fin d) = Fin 100)
       \<and> (js_le (Fin d) (js_add (pt_y (scrollPosition st)) (dim_height (viewportBox st)))
            \<longrightarrow> fullyPaginated (Some st) = Some True)
       \<and> fullyPaginated (Some st) =
           Some (js_lt (Fin 99)
                   (times100 (js_div (Math_ceil (js_add (pt_y (scrollPosition st))
                                                   (dim_height (viewportBox st))))
                                (Fin d))))"
proof (intro conjI impI)
  let ?sum = "js_add (pt_y (scrollPosition st)) (dim_height (viewportBox st))"
  show "\<not> js_lt (Fin 100) (perc n (Fin d))"
    unfolding perc_def by (rule min100_not_above)
  show "js_le (perc n (Fin d)) (Fin 100)" if "n \<noteq> NaN"
  proof -
    have "times100 (js_div (Math_ceil n) (Fin d)) \<noteq> NaN"
    proof (cases "is_inf (Math_ceil n)")
      case True
      with assms(1) show ?thesis
        by (cases "Math_ceil n") (simp_all add: js_div_def signed_inf_def)
    next
      case False
      from that have "Math_ceil n \<noteq> NaN" by (cases n) auto
      from js_div_not_NaN [OF this assms(1) False]
      have "js_div (Math_ceil n) (Fin d) \<noteq> NaN" .
      moreover have "rnd x \<noteq> NaN" for x
        by (cases "rnd_pos \<bar>x\<bar>") (auto simp: rnd_def rnd_pos_def Let_def split: if_splits)
      ultimately show ?thesis
        by (cases "js_div (Math_ceil n) (Fin d)") simp_all
    qed
    then show ?thesis unfolding perc_def by (rule min100_le)
  qed
  show "perc n (Fin d) = Fin 100" if "js_le (Fin d) (Math_ceil n)"
    unfolding perc_def by (rule perc_100 [OF assms(1) that])
  have fp: "fullyPaginated (Some st) = Some (js_le (Fin 100) (perc ?sum (Fin d)))"
    by (simp add: fullyPaginated_def visualScrollPercentage_def assms(2))
  show "fullyPaginated (Some st) = Some True" if "js_le (Fin d) ?sum"
  proof -
    from js_le_Fin_cases [OF that assms(1)] have "js_le (Fin d) (Math_ceil ?sum)"
    proof (elim disjE exE conjE)
      fix y assume y: "?sum = Fin y" "d \<le> y"
      with assms(1) have "d \<le> real_of_int \<lceil>y\<rceil>" by linarith
      with y assms(1) show ?thesis by simp
    qed simp
    from perc_100 [OF assms(1) this] fp show ?thesis by (simp add: perc_def)
  qed
  show "fullyPaginated (Some st) =
           Some (js_lt (Fin 99) (times100 (js_div (Math_ceil ?sum) (Fin d))))"
    by (simp add: fp perc_def ceil_min100_ge)
qed

theorem perc_upper_bound_and_fullyPaginated_witness:
  "(0::real) < 1000 \<and> dim_height (scrollBox (page 0 1000 1000)) = Fin 1000
   \<and> js_le (Fin 1000) (Math_ceil (Fin 1000))
   \<and> perc (Fin 1000) (Fin 1000) = Fin 100
   \<and> js_le (Fin 1000) (js_add (Fin 0) (Fin 1000))
   \<and> fullyPaginated (Some (page 0 1000 1000)) = Some True"
proof -
  have s: "js_add (Fin 0) (Fin 1000) = Fin 1000"
    by (simp add: js_add_def double_defs)
  from perc_upper_bound_and_fullyPaginated [of 1000 "page 0 1000 1000" "Fin 1000"] s
  show ?thesis by (simp add: page_def)
qed

text \<open>
  Claim C10 as stated fails: with scroll position 0, a viewport of height 995 and a scroll
  box of height 1000, the position plus the viewport height has not reached the scroll-box
  height, and \<open>fullyPaginated\<close> is true (99.5 is taken to 100). And a percentage is not
  at most 100 when it is NaN: \<^verbatim>\<open>perc(NaN, 1000)\<close> is NaN, and so is
  \<^verbatim>\<open>perc(Infinity, Infinity)\<close>, where \<open>ceil(n)\<close> is at least \<open>d\<close>.
\<close>

theorem fullyPaginated_before_scroll_end:
  "fullyPaginated (Some (page 0 995 1000)) = Some True
   \<and> js_add (Fin 0) (Fin 995) = Fin 995
   \<and> \<not> js_le (Fin 1000) (js_add (Fin 0) (Fin 995))
   \<and> perc NaN (Fin 1000) = NaN
   \<and> \<not> js_le (perc NaN (Fin 1000)) (Fin 100)
   \<and> js_lt (Fin 0) PosInf
   \<and> js_le PosInf (Math_ceil PosInf)
   \<and> perc PosInf PosInf = NaN"
  by (simp add: paging_defs double_defs)

section \<open>Proxies: heap operations\<close>

lemma lookup_Some_iff: "lookup h a = Some c \<longleftrightarrow> a < length h \<and> c = h ! a"
  by (auto simp: lookup_def)

lemma lookup_None_iff: "lookup h a = None \<longleftrightarrow> length h \<le> a"
  by (auto simp: lookup_def)

lemma lookup_append: "a < length h \<Longrightarrow> lookup (h @ xs) a = Some (h ! a)"
  by (simp add: lookup_def nth_append)

lemma find_prop_own:
  assumes "a < length h" and "map_of (o_props (h ! a)) k = Some p"
  shows "find_prop (length h) h a k = Some p"
proof -
  from assms(1) obtain n where n: "length h = Suc n"
    by (cases "length h") auto
  show ?thesis
    using assms by (simp add: n lookup_def)
qed

lemma find_prop_grow:
  "find_prop n h a k = Some p \<Longrightarrow> find_prop (n + m) (h @ xs) a k = Some p"
proof (induction n arbitrary: a)
  case 0
  then show ?case by simp
next
  case (Suc n)
  from Suc.prems have valid: "a < length h"
    by (auto simp: lookup_def split: if_splits)
  show ?case
  proof (cases "map_of (o_props (h ! a)) k")
    case (Some q)
    with Suc.prems valid show ?thesis
      by (simp add: lookup_def nth_append)
  next
    case None
    with Suc.prems valid obtain b where b: "o_proto (h ! a) = Some b" "find_prop n h b k = Some p"
      by (auto simp: lookup_def split: option.splits)
    from Suc.IH [OF b(2)] None b(1) valid show ?thesis
      by (simp add: lookup_def nth_append)
  qed
qed

lemma find_prop_cong:
  assumes "length h' = length h"
    and "\<And>b. b < length h \<Longrightarrow> map_of (o_props (h' ! b)) k = map_of (o_props (h ! b)) k
                                  \<and> o_proto (h' ! b) = o_proto (h ! b)"
  shows "find_prop n h' a k = find_prop n h a k"
proof (induction n arbitrary: a)
  case 0
  show ?case by simp
next
  case (Suc n)
  show ?case
  proof (cases "a < length h")
    case True
    with assms(1) assms(2) [OF True] Suc.IH show ?thesis
      by (simp add: lookup_def split: option.splits)
  next
    case False
    with assms(1) show ?thesis by (simp add: lookup_def)
  qed
qed


lemma alloc_eq:
  "alloc c s = (v, s') \<longleftrightarrow> v = VObj (length (heap s)) \<and> s' = s\<lparr>heap := heap s @ [c]\<rparr>"
  by (auto simp: alloc_def)

lemma asArray_cases:
  assumes "asArray input s = (l, s')"
  shows "s' = s \<or> (\<exists>c. l = VObj (length (heap s)) \<and> s' = s\<lparr>heap := heap s @ [c]\<rparr> \<and> o_kind c = Array)"
  using assms
  by (auto simp: asArray_def alloc_def empty_array_def singleton_array_def split: if_splits)

lemma asArray_frame:
  assumes "asArray input s = (l, s')"
  shows "\<exists>xs. s' = s\<lparr>heap := heap s @ xs\<rparr>"
proof -
  from asArray_cases [OF assms] show ?thesis
  proof
    assume "s' = s"
    then have "s' = s\<lparr>heap := heap s @ []\<rparr>" by simp
    then show ?thesis by blast
  next
    assume "\<exists>c. l = VObj (length (heap s)) \<and> s' = s\<lparr>heap := heap s @ [c]\<rparr> \<and> o_kind c = Array"
    then show ?thesis by blast
  qed
qed

text \<open>Operations on a proxy are operations on the object at the end of its chain.\<close>

lemma raw_not_proxy: "raw v \<noteq> VProxy i t hid"
  by (induction v) simp_all

lemma raw_raw: "raw (raw v) = raw v"
  by (induction v) simp_all

lemma typeof_raw: "typeof h (raw v) = typeof h v"
  by (induction v) simp_all

lemma isFrozen_raw: "isFrozen h (raw v) = isFrozen h v"
  by (induction v) simp_all

lemma has_property_raw: "has_property h (raw v) k = has_property h v k"
  by (induction v) simp_all

lemma get_member_raw: "get_member h (raw v) k = get_member h v k"
  by (induction v) (simp_all add: TraceHandler_get_def)

lemma defineProperty_raw: "defineProperty (raw v) k x s = defineProperty v k x s"
  by (induction v) simp_all

lemma call_method_raw: "call_method (raw f) this arg s = call_method f this arg s"
  by (induction f) simp_all

lemma typeof_append:
  assumes "isFrozen h v = Inr b"
  shows "typeof (h @ xs) v = typeof h v"
proof -
  from assms have "isFrozen h (raw v) = Inr b" by (simp add: isFrozen_raw)
  then have "typeof (h @ xs) (raw v) = typeof h (raw v)"
    by (cases "raw v") (auto simp: lookup_def nth_append raw_not_proxy split: if_splits)
  then show ?thesis by (simp add: typeof_raw)
qed

lemma isFrozen_append:
  assumes "isFrozen h v = Inr b"
  shows "isFrozen (h @ xs) v = Inr b"
proof -
  from assms have "isFrozen h (raw v) = Inr b" by (simp add: isFrozen_raw)
  then have "isFrozen (h @ xs) (raw v) = Inr b"
    by (cases "raw v") (auto simp: lookup_def nth_append raw_not_proxy split: if_splits)
  then show ?thesis by (simp add: isFrozen_raw)
qed

lemma isFrozen_False_obj:
  assumes "isFrozen h v = Inr False"
  obtains a where "raw v = VObj a" and "a < length h" and "\<not> frozen_obj (h ! a)"
proof -
  from assms have "isFrozen h (raw v) = Inr False" by (simp add: isFrozen_raw)
  then have "\<exists>a. raw v = VObj a \<and> a < length h \<and> \<not> frozen_obj (h ! a)"
    by (cases "raw v") (auto simp: lookup_def raw_not_proxy split: if_splits)
  with that show ?thesis by blast
qed

lemma heap_set_own [simp]:
  "heap (set_own a c k p s) = (heap s)[a := c\<lparr>o_props := AList.update k p (o_props c)\<rparr>]"
  by (simp add: set_own_def)

lemma set_own_frame: "set_own a c k p s = s\<lparr>heap := heap (set_own a c k p s)\<rparr>"
  by (simp add: set_own_def)

text \<open>What a successful \<open>defineProperty\<close> on an object does.\<close>

lemma defineProperty_obj:
  assumes "defineProperty (VObj a) k v s = Inr s'"
  shows "a < length (heap s)"
    and "s' = s\<lparr>heap := heap s'\<rparr>"
    and "length (heap s') = length (heap s)"
    and "\<And>b. b \<noteq> a \<Longrightarrow> heap s' ! b = heap s ! b"
    and "o_extensible (heap s' ! a) = o_extensible (heap s ! a)"
    and "o_proto (heap s' ! a) = o_proto (heap s ! a)"
    and "o_kind (heap s' ! a) = o_kind (heap s ! a)"
    and "\<And>k'. k' \<noteq> k \<Longrightarrow> map_of (o_props (heap s' ! a)) k' = map_of (o_props (heap s ! a)) k'"
    and "\<exists>p. map_of (o_props (heap s' ! a)) k = Some p \<and> p_value p = v
              \<and> \<not> p_writable p \<and> \<not> p_enumerable p"
    and "map_of (o_props (heap s ! a)) k = None \<Longrightarrow>
           o_extensible (heap s ! a) \<and>
           map_of (o_props (heap s' ! a)) k =
             Some \<lparr>p_value = v, p_writable = False, p_enumerable = False, p_configurable = False\<rparr>"
  using assms
  by (auto simp: lookup_def set_own_def update_conv' split: if_splits option.splits)


lemma has_property_cong:
  assumes "length h' = length h"
    and "\<And>b. b < length h \<Longrightarrow> map_of (o_props (h' ! b)) k = map_of (o_props (h ! b)) k
                                  \<and> o_proto (h' ! b) = o_proto (h ! b)"
  shows "has_property h' v k = has_property h v k" and "get_member h' v k = get_member h v k"
proof -
  note fp = find_prop_cong [of h' h k, OF assms]
  have "has_property h' (raw v) k = has_property h (raw v) k"
    using fp assms(1) by (cases "raw v") (simp_all add: lookup_def raw_not_proxy)
  then show "has_property h' v k = has_property h v k" by (simp add: has_property_raw)
  have "get_member h' (raw v) k = get_member h (raw v) k"
    using fp assms(1) by (cases "raw v") (simp_all add: lookup_def raw_not_proxy)
  then show "get_member h' v k = get_member h v k" by (simp add: get_member_raw)
qed

lemma has_property_obj_valid:
  assumes "has_property h (VObj a) k = Inr b"
  shows "a < length h" and "b \<longleftrightarrow> find_prop (length h) h a k \<noteq> None"
  using assms by (auto simp: lookup_def split: if_splits)

lemma defineProperty_other_key:
  assumes "defineProperty (VObj a) k v s = Inr s'" and "k' \<noteq> k"
  shows "has_property (heap s') w k' = has_property (heap s) w k'"
    and "get_member (heap s') w k' = get_member (heap s) w k'"
proof -
  have agree: "map_of (o_props (heap s' ! b)) k' = map_of (o_props (heap s ! b)) k'
               \<and> o_proto (heap s' ! b) = o_proto (heap s ! b)" for b
    using defineProperty_obj(4,6,8) [OF assms(1)] assms(2)
    by (cases "b = a") auto
  show "has_property (heap s') w k' = has_property (heap s) w k'"
    by (rule has_property_cong(1) [OF defineProperty_obj(3) [OF assms(1)]]) (rule agree)
  show "get_member (heap s') w k' = get_member (heap s) w k'"
    by (rule has_property_cong(2) [OF defineProperty_obj(3) [OF assms(1)]]) (rule agree)
qed

lemma privateMembers_frame_all:
  assumes "privateMembers_forEach ms (VObj a) s = (r, s')"
  shows "s' = s\<lparr>heap := heap s'\<rparr> \<and> length (heap s') = length (heap s)
       \<and> (\<forall>b. b \<noteq> a \<longrightarrow> heap s' ! b = heap s ! b)
       \<and> o_extensible (heap s' ! a) = o_extensible (heap s ! a)
       \<and> o_proto (heap s' ! a) = o_proto (heap s ! a)
       \<and> o_kind (heap s' ! a) = o_kind (heap s ! a)
       \<and> (\<forall>k'. k' \<notin> fst ` set ms \<longrightarrow>
             map_of (o_props (heap s' ! a)) k' = map_of (o_props (heap s ! a)) k')"
  using assms
proof (induction ms arbitrary: s)
  case Nil
  then show ?case by simp
next
  case (Cons m ms)
  obtain k x where m: "m = (k, x)" by (cases m)
  show ?case
  proof (cases "has_property (heap s) (VObj a) k")
    case (Inl e)
    with Cons.prems m show ?thesis by simp
  next
    case (Inr present)
    show ?thesis
    proof (cases present)
      case True
      with Inr Cons.prems m have "privateMembers_forEach ms (VObj a) s = (r, s')" by simp
      from Cons.IH [OF this] show ?thesis by (simp add: m)
    next
      case False
      show ?thesis
      proof (cases "defineProperty (VObj a) k x s")
        case (Inl e)
        with False Inr Cons.prems m show ?thesis by simp
      next
        case (Inr s1)
        with False \<open>has_property (heap s) (VObj a) k = Inr present\<close> Cons.prems m
        have rest: "privateMembers_forEach ms (VObj a) s1 = (r, s')" by simp
        note d = defineProperty_obj [OF Inr]
        note ih = Cons.IH [OF rest]
        have "s' = s\<lparr>heap := heap s'\<rparr>"
          using ih d(2) by (metis state.surjective state.update_convs(2))
        moreover have "length (heap s') = length (heap s)"
          using ih d(3) by simp
        moreover have "\<forall>b. b \<noteq> a \<longrightarrow> heap s' ! b = heap s ! b"
          using ih d(4) by simp
        moreover have "o_extensible (heap s' ! a) = o_extensible (heap s ! a)"
          "o_proto (heap s' ! a) = o_proto (heap s ! a)"
          "o_kind (heap s' ! a) = o_kind (heap s ! a)"
          using ih d(5,6,7) by simp_all
        moreover have "\<forall>k'. k' \<notin> fst ` set (m # ms) \<longrightarrow>
             map_of (o_props (heap s' ! a)) k' = map_of (o_props (heap s ! a)) k'"
          using ih d(8) by (auto simp: m)
        ultimately show ?thesis by blast
      qed
    qed
  qed
qed


lemma privateMembers_defined:
  assumes "privateMembers_forEach ms (VObj a) s = (Inr u, s')"
    and "distinct (map fst ms)" and "(k, x) \<in> set ms"
  shows "map_of (o_props (heap s' ! a)) k =
           (if has_property (heap s) (VObj a) k = Inr True
            then map_of (o_props (heap s ! a)) k
            else Some \<lparr>p_value = x, p_writable = False, p_enumerable = False,
                       p_configurable = False\<rparr>)"
  using assms
proof (induction ms arbitrary: s)
  case Nil
  then show ?case by simp
next
  case (Cons m ms)
  obtain k0 x0 where m: "m = (k0, x0)" by (cases m)
  from Cons.prems(2) m have k0_notin: "k0 \<notin> fst ` set ms" and dist: "distinct (map fst ms)"
    by auto
  show ?case
  proof (cases "has_property (heap s) (VObj a) k0")
    case (Inl e)
    with Cons.prems(1) m show ?thesis by simp
  next
    case (Inr present)
    note hp = has_property_obj_valid [OF Inr]
    show ?thesis
    proof (cases present)
      case True
      with Inr Cons.prems(1) m have rest: "privateMembers_forEach ms (VObj a) s = (Inr u, s')"
        by simp
      show ?thesis
      proof (cases "k = k0")
        case same: True
        from privateMembers_frame_all [OF rest] k0_notin
        have "map_of (o_props (heap s' ! a)) k0 = map_of (o_props (heap s ! a)) k0" by blast
        with same Inr True show ?thesis by simp
      next
        case False
        with Cons.prems(3) m have "(k, x) \<in> set ms" by auto
        from Cons.IH [OF rest dist this] show ?thesis .
      qed
    next
      case False
      with hp have absent: "find_prop (length (heap s)) (heap s) a k0 = None" by simp
      have own_absent: "map_of (o_props (heap s ! a)) k0 = None"
      proof (cases "map_of (o_props (heap s ! a)) k0")
        case None
        then show ?thesis .
      next
        case (Some p)
        from find_prop_own [OF hp(1) Some] absent show ?thesis by simp
      qed
      show ?thesis
      proof (cases "defineProperty (VObj a) k0 x0 s")
        case (Inl e)
        with False Inr Cons.prems(1) m show ?thesis by simp
      next
        case def: (Inr s1)
        with False Inr Cons.prems(1) m
        have rest: "privateMembers_forEach ms (VObj a) s1 = (Inr u, s')" by simp
        show ?thesis
        proof (cases "k = k0")
          case same: True
          with Cons.prems(2,3) m have "x = x0"
            by (auto simp: image_iff) 
          from privateMembers_frame_all [OF rest] k0_notin
          have "map_of (o_props (heap s' ! a)) k0 = map_of (o_props (heap s1 ! a)) k0" by blast
          also from defineProperty_obj(10) [OF def own_absent]
          have "\<dots> = Some \<lparr>p_value = x0, p_writable = False, p_enumerable = False,
                             p_configurable = False\<rparr>" by simp
          finally show ?thesis
            using same \<open>x = x0\<close> Inr False by simp
        next
          case other: False
          with Cons.prems(3) m have mem: "(k, x) \<in> set ms" by auto
          from defineProperty_other_key(1) [OF def other]
          have hp_eq: "has_property (heap s1) (VObj a) k = has_property (heap s) (VObj a) k" .
          from defineProperty_obj(8) [OF def other]
          have own_eq: "map_of (o_props (heap s1 ! a)) k = map_of (o_props (heap s ! a)) k" .
          from Cons.IH [OF rest dist mem] hp_eq own_eq show ?thesis by simp
        qed
      qed
    qed
  qed
qed

lemma privateMembers_present:
  assumes "privateMembers_forEach ms (VObj a) s = (Inr u, s')" and "k \<in> fst ` set ms"
  shows "has_property (heap s') (VObj a) k = Inr True"
  using assms
proof (induction ms arbitrary: s)
  case Nil
  then show ?case by simp
next
  case (Cons m ms)
  obtain k0 x0 where m: "m = (k0, x0)" by (cases m)
  have step: "has_property (heap s') (VObj a) k = Inr True"
    if rest: "privateMembers_forEach ms (VObj a) s1 = (Inr u, s')"
      and now: "has_property (heap s1) (VObj a) k0 = Inr True" for s1
  proof (cases "k \<in> fst ` set ms")
    case True
    from Cons.IH [OF rest True] show ?thesis .
  next
    case notin: False
    with Cons.prems(2) m have k: "k = k0" by auto
    note f = privateMembers_frame_all [OF rest]
    have "has_property (heap s') (VObj a) k = has_property (heap s1) (VObj a) k"
    proof (rule has_property_cong(1))
      show "length (heap s') = length (heap s1)" using f by simp
      fix b assume "b < length (heap s1)"
      show "map_of (o_props (heap s' ! b)) k = map_of (o_props (heap s1 ! b)) k
            \<and> o_proto (heap s' ! b) = o_proto (heap s1 ! b)"
        using f notin by (cases "b = a") auto
    qed
    with now k show ?thesis by simp
  qed
  show ?case
  proof (cases "has_property (heap s) (VObj a) k0")
    case (Inl e)
    with Cons.prems(1) m show ?thesis by simp
  next
    case (Inr present)
    show ?thesis
    proof (cases present)
      case True
      with Inr Cons.prems(1) m have "privateMembers_forEach ms (VObj a) s = (Inr u, s')" by simp
      from step [OF this] Inr True show ?thesis by simp
    next
      case False
      show ?thesis
      proof (cases "defineProperty (VObj a) k0 x0 s")
        case (Inl e)
        with False Inr Cons.prems(1) m show ?thesis by simp
      next
        case def: (Inr s1)
        with False Inr Cons.prems(1) m
        have rest: "privateMembers_forEach ms (VObj a) s1 = (Inr u, s')" by simp
        from defineProperty_obj(9) [OF def] obtain p where
          "map_of (o_props (heap s1 ! a)) k0 = Some p" by blast
        moreover have "a < length (heap s1)"
          using defineProperty_obj(1,3) [OF def] by simp
        ultimately have "find_prop (length (heap s1)) (heap s1) a k0 = Some p"
          by (rule find_prop_own [rotated])
        then have "has_property (heap s1) (VObj a) k0 = Inr True"
          using \<open>a < length (heap s1)\<close> by (simp add: lookup_def)
        from step [OF rest this] show ?thesis .
      qed
    qed
  qed
qed


lemma privateMembers_forEach_raw:
  "privateMembers_forEach ms (raw v) s = privateMembers_forEach ms v s"
proof (induction ms arbitrary: s)
  case Nil
  show ?case by simp
next
  case (Cons m ms)
  obtain k x where m: "m = (k, x)" by (cases m)
  show ?case
    by (simp add: m has_property_raw defineProperty_raw Cons.IH
        split: sum.split bool.split)
qed

lemma call_method_Inr:
  assumes "call_method f this arg s = Inr s'"
  shows "s' = s\<lparr>calls := calls s @ [(raw f, this, arg)]\<rparr>"
    and "\<exists>b g. raw f = VObj b \<and> b < length (heap s) \<and> o_kind (heap s ! b) = Function g"
proof -
  from assms have c: "call_method (raw f) this arg s = Inr s'" by (simp add: call_method_raw)
  from c show "s' = s\<lparr>calls := calls s @ [(raw f, this, arg)]\<rparr>"
    by (cases "raw f") (auto simp: lookup_def raw_not_proxy split: if_splits kind.splits)
  from c show "\<exists>b g. raw f = VObj b \<and> b < length (heap s) \<and> o_kind (heap s ! b) = Function g"
    by (cases "raw f") (auto simp: lookup_def raw_not_proxy split: if_splits kind.splits)
qed

lemma defineProperty_Inr:
  assumes "defineProperty v k x s = Inr s'"
  obtains a where "raw v = VObj a" and "defineProperty (VObj a) k x s = Inr s'"
proof -
  from assms have d: "defineProperty (raw v) k x s = Inr s'" by (simp add: defineProperty_raw)
  then have "\<exists>a. raw v = VObj a" by (cases "raw v") (auto simp: raw_not_proxy)
  with d that show ?thesis by auto
qed

lemma defineProperty_fields:
  assumes "defineProperty v k x s = Inr s'"
  shows "sequence s' = sequence s" and "handlers s' = handlers s"
    and "proxies s' = proxies s" and "calls s' = calls s"
proof -
  from assms obtain a where d: "defineProperty (VObj a) k x s = Inr s'"
    by (rule defineProperty_Inr)
  from defineProperty_obj(2) [OF d] have eq: "s' = s\<lparr>heap := heap s'\<rparr>" .
  show "sequence s' = sequence s" by (subst eq) simp
  show "handlers s' = handlers s" by (subst eq) simp
  show "proxies s' = proxies s" by (subst eq) simp
  show "calls s' = calls s" by (subst eq) simp
qed

lemma attach_listeners_cases:
  assumes "attach_listeners v l hid s = (r, s')"
  obtains
    (get_fails) e where "get_member (heap s) v ''addTraceListener'' = Inl e" "r = Inl e" "s' = s"
  | (call_fails) f e where "get_member (heap s) v ''addTraceListener'' = Inr f" "truthy f"
      "call_method f v l s = Inl e" "r = Inl e" "s' = s"
  | (called) f where "get_member (heap s) v ''addTraceListener'' = Inr f" "truthy f"
      "call_method f v l s = Inr s'" "r = Inr ()"
  | (define_fails) f e where "get_member (heap s) v ''addTraceListener'' = Inr f" "\<not> truthy f"
      "defineProperty v ''addTraceListener'' (VObj (length (heap s)))
         (s\<lparr>heap := heap s @ [bound_function hid]\<rparr>) = Inl e"
      "r = Inl e" "s' = s\<lparr>heap := heap s @ [bound_function hid]\<rparr>"
  | (defined) f where "get_member (heap s) v ''addTraceListener'' = Inr f" "\<not> truthy f"
      "defineProperty v ''addTraceListener'' (VObj (length (heap s)))
         (s\<lparr>heap := heap s @ [bound_function hid]\<rparr>) = Inr s'"
      "r = Inr ()"
proof (cases "get_member (heap s) v ''addTraceListener''")
  case (Inl e)
  from assms Inl have r: "r = Inl e" and s: "s' = s"
    by (simp_all add: attach_listeners_def)
  from Inl r s show ?thesis by (rule get_fails)
next
  case (Inr f)
  show ?thesis
  proof (cases "truthy f")
    case True
    show ?thesis
    proof (cases "call_method f v l s")
      case (Inl e)
      from assms Inr True Inl have r: "r = Inl e" and s: "s' = s"
        by (simp_all add: attach_listeners_def)
      from Inr True Inl r s show ?thesis by (rule call_fails)
    next
      case cm: (Inr s1)
      from assms Inr True cm have r: "r = Inr ()" and s: "s1 = s'"
        by (simp_all add: attach_listeners_def)
      from Inr True cm [unfolded s] r show ?thesis by (rule called)
    qed
  next
    case False
    show ?thesis
    proof (cases "defineProperty v ''addTraceListener'' (VObj (length (heap s)))
         (s\<lparr>heap := heap s @ [bound_function hid]\<rparr>)")
      case (Inl e)
      from assms Inr False Inl
      have r: "r = Inl e" and s: "s' = s\<lparr>heap := heap s @ [bound_function hid]\<rparr>"
        by (simp_all add: attach_listeners_def bind_addTraceListener_def alloc_def)
      from Inr False Inl r s show ?thesis by (rule define_fails)
    next
      case d: (Inr s2)
      from assms Inr False d have r: "r = Inr ()" and s: "s2 = s'"
        by (simp_all add: attach_listeners_def bind_addTraceListener_def alloc_def)
      from Inr False d [unfolded s] r show ?thesis by (rule defined)
    qed
  qed
qed

lemma attach_listeners_frame:
  assumes "attach_listeners v l hid s = (r, s')"
  shows "sequence s' = sequence s" and "handlers s' = handlers s" and "proxies s' = proxies s"
proof -
  have "sequence s' = sequence s \<and> handlers s' = handlers s \<and> proxies s' = proxies s"
    using assms
  proof (cases rule: attach_listeners_cases)
    case (called f)
    from call_method_Inr(1) [OF called(3)] show ?thesis by simp
  next
    case (defined f)
    from defineProperty_fields [OF defined(3)] show ?thesis by simp
  qed simp_all
  then show "sequence s' = sequence s" and "handlers s' = handlers s" and "proxies s' = proxies s"
    by simp_all
qed


lemma trace_object_cases:
  assumes "trace_object path v l s1 = (res, s')"
  obtains
    (private_fails) s3 e where
      "s3 = s1\<lparr>handlers := handlers s1 @ [\<lparr>h_path = path, h_listeners = l, h_target = v\<rparr>],
                sequence := Suc (sequence s1)\<rparr>"
      "privateMembers_forEach (privateMembers (sequence s1) l path) v s3 = (Inl e, s')"
      "res = Inl e"
  | (attach_fails) s3 s4 e where
      "s3 = s1\<lparr>handlers := handlers s1 @ [\<lparr>h_path = path, h_listeners = l, h_target = v\<rparr>],
                sequence := Suc (sequence s1)\<rparr>"
      "privateMembers_forEach (privateMembers (sequence s1) l path) v s3 = (Inr (), s4)"
      "attach_listeners v l (length (handlers s1)) s4 = (Inl e, s')"
      "res = Inl e"
  | (traced) s3 s4 s5 where
      "s3 = s1\<lparr>handlers := handlers s1 @ [\<lparr>h_path = path, h_listeners = l, h_target = v\<rparr>],
                sequence := Suc (sequence s1)\<rparr>"
      "privateMembers_forEach (privateMembers (sequence s1) l path) v s3 = (Inr (), s4)"
      "attach_listeners v l (length (handlers s1)) s4 = (Inr (), s5)"
      "new_Proxy v (length (handlers s1)) s5 = (res, s')"
proof -
  define s3 where "s3 = s1\<lparr>handlers := handlers s1 @ [\<lparr>h_path = path, h_listeners = l, h_target = v\<rparr>],
                sequence := Suc (sequence s1)\<rparr>"
  have unfold: "trace_object path v l s1 =
      (case privateMembers_forEach (privateMembers (sequence s1) l path) v s3 of
         (Inl e, s4) \<Rightarrow> (Inl e, s4)
       | (Inr u, s4) \<Rightarrow>
           (case attach_listeners v l (length (handlers s1)) s4 of
              (Inl e, s5) \<Rightarrow> (Inl e, s5)
            | (Inr u', s5) \<Rightarrow> new_Proxy v (length (handlers s1)) s5))"
    by (simp add: trace_object_def new_TraceHandler_def next_sequence_def s3_def)
  obtain rp s4 where pm: "privateMembers_forEach (privateMembers (sequence s1) l path) v s3 = (rp, s4)"
    by (cases "privateMembers_forEach (privateMembers (sequence s1) l path) v s3")
  show ?thesis
  proof (cases rp)
    case (Inl e)
    from assms unfold pm Inl have r: "res = Inl e" and s: "s4 = s'" by simp_all
    from s3_def pm [unfolded Inl s] r show ?thesis by (rule private_fails)
  next
    case (Inr u)
    then have pm': "privateMembers_forEach (privateMembers (sequence s1) l path) v s3 = (Inr (), s4)"
      using pm by simp
    obtain ra s5 where at: "attach_listeners v l (length (handlers s1)) s4 = (ra, s5)"
      by (cases "attach_listeners v l (length (handlers s1)) s4")
    show ?thesis
    proof (cases ra)
      case (Inl e)
      from assms unfold pm' at Inl have r: "res = Inl e" and s: "s5 = s'" by simp_all
      from s3_def pm' at [unfolded Inl s] r show ?thesis by (rule attach_fails)
    next
      case (Inr u')
      then have at': "attach_listeners v l (length (handlers s1)) s4 = (Inr (), s5)"
        using at by simp
      from assms unfold pm' at' have "new_Proxy v (length (handlers s1)) s5 = (res, s')" by simp
      with s3_def pm' at' show ?thesis by (rule traced)
    qed
  qed
qed

section \<open>Proxies.trace: what a call does\<close>

lemma trace_not_object:
  assumes "typeof (heap s) v \<noteq> ''object''"
  shows "trace path v listeners s = (Inl (Error ''We can only trace object types.''), s)"
  using assms by (simp add: trace_def)

lemma asArray_isFrozen:
  assumes "isFrozen (heap s) v = Inr b"
  shows "isFrozen (heap (snd (asArray listeners s))) v = Inr b"
proof -
  obtain l s1 where a: "asArray listeners s = (l, s1)" by (cases "asArray listeners s")
  from asArray_frame [OF a] obtain xs where "s1 = s\<lparr>heap := heap s @ xs\<rparr>" by blast
  with a isFrozen_append [OF assms, of xs] show ?thesis by simp
qed

lemma trace_frozen:
  assumes "typeof (heap s) v = ''object''" and "isFrozen (heap s) v = Inr True"
  shows "trace path v listeners s = (Inr v, snd (asArray listeners s))"
proof -
  obtain l s1 where a: "asArray listeners s = (l, s1)" by (cases "asArray listeners s")
  with asArray_isFrozen [OF assms(2), of listeners] have "isFrozen (heap s1) v = Inr True"
    by simp
  with assms(1) a show ?thesis by (simp add: trace_def)
qed

lemma trace_nonfrozen:
  assumes "typeof (heap s) v = ''object''" and "isFrozen (heap s) v = Inr False"
    and "asArray listeners s = (l, s1)"
  shows "trace path v listeners s = trace_object path v l s1"
  using assms(1,3) asArray_isFrozen [OF assms(2), of listeners]
  by (simp add: trace_def)

lemma new_Proxy_object:
  assumes "raw v = VObj a"
  shows "new_Proxy v hid s =
           (Inr (VProxy (length (proxies s)) v hid), s\<lparr>proxies := proxies s @ [(v, hid)]\<rparr>)"
  using assms by (cases v) simp_all

lemma attach_listeners_valid:
  assumes "attach_listeners v l hid s = (Inr u, s')" and "raw v = VObj a"
  shows "a < length (heap s)"
proof -
  have gm: "get_member (heap s) v k = get_member (heap s) (VObj a) k" for k
    using get_member_raw [of "heap s" v k] assms(2) by simp
  from assms(1) show ?thesis
    by (cases rule: attach_listeners_cases) (auto simp: gm lookup_def split: if_splits)
qed

text \<open>The registration of the listeners and the heap, whatever the outcome.\<close>

lemma attach_listeners_heap:
  assumes "attach_listeners v l hid s = (r, s')" and "raw v = VObj a" and "a < length (heap s)"
  shows "length (heap s) \<le> length (heap s')"
    and "\<And>b. b < length (heap s) \<Longrightarrow> b \<noteq> a \<Longrightarrow> heap s' ! b = heap s ! b"
    and "o_extensible (heap s' ! a) = o_extensible (heap s ! a)"
    and "o_proto (heap s' ! a) = o_proto (heap s ! a)"
    and "o_kind (heap s' ! a) = o_kind (heap s ! a)"
    and "\<And>k. k \<noteq> ''addTraceListener'' \<Longrightarrow>
           map_of (o_props (heap s' ! a)) k = map_of (o_props (heap s ! a)) k"
proof -
  note valid = assms(3)
  have dp: "defineProperty v k x t = defineProperty (VObj a) k x t" for k x t
    using defineProperty_raw [of v k x t] assms(2) by simp
  have "length (heap s) \<le> length (heap s')
      \<and> (\<forall>b. b < length (heap s) \<longrightarrow> b \<noteq> a \<longrightarrow> heap s' ! b = heap s ! b)
      \<and> o_extensible (heap s' ! a) = o_extensible (heap s ! a)
      \<and> o_proto (heap s' ! a) = o_proto (heap s ! a)
      \<and> o_kind (heap s' ! a) = o_kind (heap s ! a)
      \<and> (\<forall>k. k \<noteq> ''addTraceListener'' \<longrightarrow>
           map_of (o_props (heap s' ! a)) k = map_of (o_props (heap s ! a)) k)"
    using assms(1)
  proof (cases rule: attach_listeners_cases)
    case (called f)
    from call_method_Inr(1) [OF called(3)] show ?thesis by simp
  next
    case (define_fails f e)
    with valid show ?thesis by (simp add: nth_append)
  next
    case (defined f)
    note d = defineProperty_obj [OF defined(3) [unfolded dp]]
    from d(3) have len: "length (heap s') = Suc (length (heap s))" by simp
    have "heap s' ! b = heap s ! b" if "b < length (heap s)" "b \<noteq> a" for b
      using d(4) [OF that(2)] that(1) by (simp add: nth_append)
    moreover have "o_extensible (heap s' ! a) = o_extensible (heap s ! a)"
      "o_proto (heap s' ! a) = o_proto (heap s ! a)"
      "o_kind (heap s' ! a) = o_kind (heap s ! a)"
      using d(5,6,7) valid by (simp_all add: nth_append)
    moreover have "map_of (o_props (heap s' ! a)) k = map_of (o_props (heap s ! a)) k"
      if "k \<noteq> ''addTraceListener''" for k
      using d(8) [OF that] valid by (simp add: nth_append)
    ultimately show ?thesis using len by simp
  qed simp_all
  then show "length (heap s) \<le> length (heap s')"
    and "\<And>b. b < length (heap s) \<Longrightarrow> b \<noteq> a \<Longrightarrow> heap s' ! b = heap s ! b"
    and "o_extensible (heap s' ! a) = o_extensible (heap s ! a)"
    and "o_proto (heap s' ! a) = o_proto (heap s ! a)"
    and "o_kind (heap s' ! a) = o_kind (heap s ! a)"
    and "\<And>k. k \<noteq> ''addTraceListener'' \<Longrightarrow>
           map_of (o_props (heap s' ! a)) k = map_of (o_props (heap s ! a)) k"
    by simp_all
qed

lemma privateMembers_names:
  "fst ` set (privateMembers n l path) = {''__traceIdentifier'', ''__traceListeners'', ''__path''}"
  by (auto simp: privateMembers_def)

lemma privateMembers_distinct: "distinct (map fst (privateMembers n l path))"
  by (simp add: privateMembers_def)

lemma privateMembers_other_key:
  assumes "privateMembers_forEach ms (VObj a) s = (r, s')" and "k \<notin> fst ` set ms"
  shows "has_property (heap s') w k = has_property (heap s) w k"
    and "get_member (heap s') w k = get_member (heap s) w k"
proof -
  note f = privateMembers_frame_all [OF assms(1)]
  have len: "length (heap s') = length (heap s)" using f by simp
  have agree: "map_of (o_props (heap s' ! b)) k = map_of (o_props (heap s ! b)) k
               \<and> o_proto (heap s' ! b) = o_proto (heap s ! b)" for b
    using f assms(2) by (cases "b = a") auto
  show "has_property (heap s') w k = has_property (heap s) w k"
    by (rule has_property_cong(1) [OF len]) (rule agree)
  show "get_member (heap s') w k = get_member (heap s) w k"
    by (rule has_property_cong(2) [OF len]) (rule agree)
qed

lemma privateMembers_fields:
  assumes "privateMembers_forEach ms v s = (r, s')"
  shows "sequence s' = sequence s \<and> handlers s' = handlers s
       \<and> proxies s' = proxies s \<and> calls s' = calls s"
  using assms
proof (induction ms arbitrary: s)
  case Nil
  then show ?case by simp
next
  case (Cons m ms)
  obtain k x where m: "m = (k, x)" by (cases m)
  show ?case
  proof (cases "has_property (heap s) v k")
    case (Inl e)
    with Cons.prems m show ?thesis by simp
  next
    case (Inr present)
    show ?thesis
    proof (cases present)
      case True
      with Inr Cons.prems m have "privateMembers_forEach ms v s = (r, s')" by simp
      from Cons.IH [OF this] show ?thesis .
    next
      case False
      show ?thesis
      proof (cases "defineProperty v k x s")
        case (Inl e)
        with False Inr Cons.prems m show ?thesis by simp
      next
        case d: (Inr s1)
        with False Inr Cons.prems m have "privateMembers_forEach ms v s1 = (r, s')" by simp
        from Cons.IH [OF this] defineProperty_fields [OF d] show ?thesis by simp
      qed
    qed
  qed
qed

text \<open>
  On an extensible object every private member that is absent can be defined, and when all
  are present none is defined: the loop ends without an error.
\<close>

lemma privateMembers_extensible:
  assumes "a < length (heap s)" and "o_extensible (heap s ! a)"
  shows "\<exists>s'. privateMembers_forEach ms (VObj a) s = (Inr (), s')"
  using assms
proof (induction ms arbitrary: s)
  case Nil
  show ?case by simp
next
  case (Cons m ms)
  obtain k x where m: "m = (k, x)" by (cases m)
  show ?case
  proof (cases "find_prop (length (heap s)) (heap s) a k")
    case (Some p)
    with Cons.prems(1) have "has_property (heap s) (VObj a) k = Inr True"
      by (simp add: lookup_def)
    with Cons.IH [OF Cons.prems] show ?thesis by (simp add: m)
  next
    case None
    with Cons.prems(1) have absent: "has_property (heap s) (VObj a) k = Inr False"
      by (simp add: lookup_def)
    have own: "map_of (o_props (heap s ! a)) k = None"
    proof (cases "map_of (o_props (heap s ! a)) k")
      case (Some p)
      from find_prop_own [OF Cons.prems(1) Some] None show ?thesis by simp
    qed simp
    let ?s1 = "set_own a (heap s ! a) k \<lparr>p_value = x, p_writable = False, p_enumerable = False,
                                         p_configurable = False\<rparr> s"
    from own Cons.prems have d: "defineProperty (VObj a) k x s = Inr ?s1"
      by (simp add: lookup_def)
    have "a < length (heap ?s1)" and "o_extensible (heap ?s1 ! a)"
      using Cons.prems by simp_all
    from Cons.IH [OF this] absent d show ?thesis by (simp add: m)
  qed
qed

lemma privateMembers_all_present:
  assumes "\<And>k. k \<in> fst ` set ms \<Longrightarrow> has_property (heap s) v k = Inr True"
  shows "privateMembers_forEach ms v s = (Inr (), s)"
  using assms
proof (induction ms)
  case Nil
  show ?case by simp
next
  case (Cons m ms)
  obtain k x where m: "m = (k, x)" by (cases m)
  from Cons.prems [of k] m have "has_property (heap s) v k = Inr True" by simp
  moreover have "privateMembers_forEach ms v s = (Inr (), s)"
    by (rule Cons.IH) (simp add: Cons.prems)
  ultimately show ?case by (simp add: m)
qed

lemma privateMembers_succeeds:
  assumes "raw v = VObj a" and "a < length (heap s)"
    and "o_extensible (heap s ! a)
         \<or> (\<forall>k \<in> fst ` set ms. has_property (heap s) v k = Inr True)"
  shows "\<exists>s'. privateMembers_forEach ms v s = (Inr (), s')"
proof -
  from assms(3) show ?thesis
  proof
    assume "o_extensible (heap s ! a)"
    from privateMembers_extensible [OF assms(2) this, of ms]
      privateMembers_forEach_raw [of ms v s] assms(1)
    show ?thesis by simp
  next
    assume "\<forall>k \<in> fst ` set ms. has_property (heap s) v k = Inr True"
    then have "privateMembers_forEach ms v s = (Inr (), s)"
      by (intro privateMembers_all_present) blast
    then show ?thesis by blast
  qed
qed

text \<open>Whatever the outcome, tracing an object that is not frozen takes one value of the
  counter and constructs one handler.\<close>

lemma trace_object_always:
  assumes "trace_object path v l s1 = (res, s')"
  shows "sequence s' = Suc (sequence s1)"
    and "handlers s' = handlers s1 @ [\<lparr>h_path = path, h_listeners = l, h_target = v\<rparr>]"
proof -
  have "sequence s' = Suc (sequence s1)
      \<and> handlers s' = handlers s1 @ [\<lparr>h_path = path, h_listeners = l, h_target = v\<rparr>]"
    using assms
  proof (cases rule: trace_object_cases)
    case (private_fails s3 e)
    from privateMembers_fields [OF private_fails(2)] private_fails(1) show ?thesis by simp
  next
    case (attach_fails s3 s4 e)
    from privateMembers_fields [OF attach_fails(2)] attach_fails(1)
      attach_listeners_frame(1,2) [OF attach_fails(3)] show ?thesis by simp
  next
    case (traced s3 s4 s5)
    have "sequence s' = sequence s5 \<and> handlers s' = handlers s5"
      using traced(4) by (cases v) auto
    with privateMembers_fields [OF traced(2)] traced(1)
      attach_listeners_frame(1,2) [OF traced(3)] show ?thesis by simp
  qed
  then show "sequence s' = Suc (sequence s1)"
    and "handlers s' = handlers s1 @ [\<lparr>h_path = path, h_listeners = l, h_target = v\<rparr>]"
    by simp_all
qed

text \<open>
  The two phases of a trace of the object at address \<open>a\<close>, reached directly or through
  proxies: the private members, and then, unless they raised, the listeners.
\<close>

lemma trace_object_phases:
  assumes "trace_object path v l s1 = (res, s')" and "raw v = VObj a"
  obtains
    (private_raised) e where
      "privateMembers_forEach (privateMembers (sequence s1) l path) (VObj a)
         (s1\<lparr>handlers := handlers s1 @ [\<lparr>h_path = path, h_listeners = l, h_target = v\<rparr>],
              sequence := Suc (sequence s1)\<rparr>) = (Inl e, s')"
      "res = Inl e"
  | (attached) s4 ra s5 where
      "privateMembers_forEach (privateMembers (sequence s1) l path) (VObj a)
         (s1\<lparr>handlers := handlers s1 @ [\<lparr>h_path = path, h_listeners = l, h_target = v\<rparr>],
              sequence := Suc (sequence s1)\<rparr>) = (Inr (), s4)"
      "attach_listeners v l (length (handlers s1)) s4 = (ra, s5)"
      "heap s' = heap s5" "calls s' = calls s5"
      "case ra of Inl e \<Rightarrow> res = Inl e \<and> s' = s5
         | Inr u \<Rightarrow> res = Inr (VProxy (length (proxies s5)) v (length (handlers s1)))
                    \<and> s' = s5\<lparr>proxies := proxies s5 @ [(v, length (handlers s1))]\<rparr>"
proof -
  have pm_raw: "privateMembers_forEach ms v t = privateMembers_forEach ms (VObj a) t" for ms t
    using privateMembers_forEach_raw [of ms v t] assms(2) by simp
  from assms(1) show ?thesis
  proof (cases rule: trace_object_cases)
    case (private_fails s3 e)
    from private_fails(2) [unfolded pm_raw private_fails(1)] private_fails(3)
    show ?thesis by (rule private_raised)
  next
    case (attach_fails s3 s4 e)
    from attach_fails(2) [unfolded pm_raw attach_fails(1)] attach_fails(3,4)
    show ?thesis by (intro attached [of s4 "Inl e" s']) simp_all
  next
    case (traced s3 s4 s5)
    from traced(4) new_Proxy_object [OF assms(2), of "length (handlers s1)" s5]
    have "res = Inr (VProxy (length (proxies s5)) v (length (handlers s1)))"
      and "s' = s5\<lparr>proxies := proxies s5 @ [(v, length (handlers s1))]\<rparr>"
      by simp_all
    with traced(2) [unfolded pm_raw traced(1)] traced(3)
    show ?thesis by (intro attached [of s4 "Inr ()" s5]) simp_all
  qed
qed

text \<open>What a trace does to the heap, whatever the outcome.\<close>

lemma trace_object_frame:
  assumes "trace_object path v l s1 = (res, s')" and "raw v = VObj a" and "a < length (heap s1)"
  shows "length (heap s1) \<le> length (heap s')"
    and "\<And>b. b < length (heap s1) \<Longrightarrow> b \<noteq> a \<Longrightarrow> heap s' ! b = heap s1 ! b"
    and "o_extensible (heap s' ! a) = o_extensible (heap s1 ! a)"
    and "o_proto (heap s' ! a) = o_proto (heap s1 ! a)"
    and "o_kind (heap s' ! a) = o_kind (heap s1 ! a)"
    and "\<And>k. k \<notin> {''__traceIdentifier'', ''__traceListeners'', ''__path'', ''addTraceListener''} \<Longrightarrow>
           map_of (o_props (heap s' ! a)) k = map_of (o_props (heap s1 ! a)) k"
proof -
  let ?s3 = "s1\<lparr>handlers := handlers s1 @ [\<lparr>h_path = path, h_listeners = l, h_target = v\<rparr>],
                 sequence := Suc (sequence s1)\<rparr>"
  have h3: "heap ?s3 = heap s1" by simp
  have "length (heap s1) \<le> length (heap s')
      \<and> (\<forall>b. b < length (heap s1) \<longrightarrow> b \<noteq> a \<longrightarrow> heap s' ! b = heap s1 ! b)
      \<and> o_extensible (heap s' ! a) = o_extensible (heap s1 ! a)
      \<and> o_proto (heap s' ! a) = o_proto (heap s1 ! a)
      \<and> o_kind (heap s' ! a) = o_kind (heap s1 ! a)
      \<and> (\<forall>k. k \<notin> {''__traceIdentifier'', ''__traceListeners'', ''__path'', ''addTraceListener''} \<longrightarrow>
           map_of (o_props (heap s' ! a)) k = map_of (o_props (heap s1 ! a)) k)"
    using assms(1,2)
  proof (cases rule: trace_object_phases)
    case (private_raised e)
    note f = privateMembers_frame_all [OF private_raised(1), unfolded h3 privateMembers_names]
    from f show ?thesis by simp
  next
    case (attached s4 ra s5)
    note f = privateMembers_frame_all [OF attached(1), unfolded h3 privateMembers_names]
    from f assms(3) have valid4: "a < length (heap s4)" by simp
    note ah = attach_listeners_heap [OF attached(2) assms(2) valid4]
    from f have len4: "length (heap s4) = length (heap s1)" by simp
    have "heap s' ! b = heap s1 ! b" if "b < length (heap s1)" "b \<noteq> a" for b
      using ah(2) [of b] f that len4 attached(3) by simp
    moreover have "map_of (o_props (heap s' ! a)) k = map_of (o_props (heap s1 ! a)) k"
      if "k \<notin> {''__traceIdentifier'', ''__traceListeners'', ''__path'', ''addTraceListener''}" for k
    proof -
      from that have "k \<noteq> ''addTraceListener''"
        and "k \<notin> {''__traceIdentifier'', ''__traceListeners'', ''__path''}" by auto
      with ah(6) [of k] f attached(3) show ?thesis by simp
    qed
    ultimately show ?thesis using ah(1,3,4,5) f len4 attached(3) by simp
  qed
  then show "length (heap s1) \<le> length (heap s')"
    and "\<And>b. b < length (heap s1) \<Longrightarrow> b \<noteq> a \<Longrightarrow> heap s' ! b = heap s1 ! b"
    and "o_extensible (heap s' ! a) = o_extensible (heap s1 ! a)"
    and "o_proto (heap s' ! a) = o_proto (heap s1 ! a)"
    and "o_kind (heap s' ! a) = o_kind (heap s1 ! a)"
    and "\<And>k. k \<notin> {''__traceIdentifier'', ''__traceListeners'', ''__path'', ''addTraceListener''} \<Longrightarrow>
           map_of (o_props (heap s' ! a)) k = map_of (o_props (heap s1 ! a)) k"
    by simp_all
qed

lemma has_property_grow:
  assumes "has_property h (VObj a) k = Inr True"
  shows "has_property (h @ xs) (VObj a) k = Inr True"
    and "get_member (h @ xs) (VObj a) k = get_member h (VObj a) k"
proof -
  from has_property_obj_valid [OF assms] obtain p where
    valid: "a < length h" and p: "find_prop (length h) h a k = Some p" by auto
  from find_prop_grow [OF p, of "length xs" xs]
  have "find_prop (length (h @ xs)) (h @ xs) a k = Some p" by simp
  with valid p show "has_property (h @ xs) (VObj a) k = Inr True"
    and "get_member (h @ xs) (VObj a) k = get_member h (VObj a) k"
    by (simp_all add: lookup_def)
qed

lemma get_member_grow:
  assumes "get_member h (VObj a) k = Inr x" and "x \<noteq> VUndefined"
  shows "get_member (h @ xs) (VObj a) k = Inr x"
proof -
  from assms obtain p where
    valid: "a < length h" and p: "find_prop (length h) h a k = Some p" and x: "p_value p = x"
    by (auto simp: lookup_def split: if_splits option.splits)
  from find_prop_grow [OF p, of "length xs" xs]
  have "find_prop (length (h @ xs)) (h @ xs) a k = Some p" by simp
  with valid x show ?thesis by (simp add: lookup_def)
qed

text \<open>A property that the object has, other than \<^verbatim>\<open>addTraceListener\<close>, is as it
  was after the registration of the listeners, whatever the outcome.\<close>

lemma attach_listeners_has_property:
  assumes "attach_listeners v l hid s = (r, s')" and "raw v = VObj a"
    and "has_property (heap s) (VObj a) k = Inr True" and "k \<noteq> ''addTraceListener''"
  shows "has_property (heap s') (VObj a) k = Inr True"
    and "get_member (heap s') (VObj a) k = get_member (heap s) (VObj a) k"
proof -
  have dp: "defineProperty v k x t = defineProperty (VObj a) k x t" for k x t
    using defineProperty_raw [of v k x t] assms(2) by simp
  have "has_property (heap s') (VObj a) k = Inr True
        \<and> get_member (heap s') (VObj a) k = get_member (heap s) (VObj a) k"
    using assms(1)
  proof (cases rule: attach_listeners_cases)
    case (get_fails e)
    with assms(3) show ?thesis by simp
  next
    case (call_fails f e)
    with assms(3) show ?thesis by simp
  next
    case (called f)
    from call_method_Inr(1) [OF called(3)] assms(3) show ?thesis by simp
  next
    case (define_fails f e)
    with has_property_grow [OF assms(3), of "[bound_function hid]"] show ?thesis by simp
  next
    case (defined f)
    note g = has_property_grow [OF assms(3), of "[bound_function hid]"]
    from defineProperty_other_key [OF defined(3) [unfolded dp] assms(4), of "VObj a"] g
    show ?thesis by simp
  qed
  then show "has_property (heap s') (VObj a) k = Inr True"
    and "get_member (heap s') (VObj a) k = get_member (heap s) (VObj a) k"
    by simp_all
qed

text \<open>
  The private members after a trace of an extensible object, and after any trace that
  returns: each is as it was if the object had it, and is defined otherwise.
\<close>

lemma trace_object_hidden:
  assumes "trace_object path v l s1 = (res, s')" and "raw v = VObj a" and "a < length (heap s1)"
    and "o_extensible (heap s1 ! a) \<or> (\<exists>r. res = Inr r)"
  shows "\<And>k x. (k, x) \<in> set (privateMembers (sequence s1) l path) \<Longrightarrow>
           map_of (o_props (heap s' ! a)) k =
             (if has_property (heap s1) v k = Inr True
              then map_of (o_props (heap s1 ! a)) k
              else Some \<lparr>p_value = x, p_writable = False, p_enumerable = False,
                         p_configurable = False\<rparr>)"
    and "\<And>k. k \<in> {''__traceIdentifier'', ''__traceListeners'', ''__path''} \<Longrightarrow>
           has_property (heap s') v k = Inr True"
proof -
  let ?s3 = "s1\<lparr>handlers := handlers s1 @ [\<lparr>h_path = path, h_listeners = l, h_target = v\<rparr>],
                 sequence := Suc (sequence s1)\<rparr>"
  let ?ms = "privateMembers (sequence s1) l path"
  have h3: "heap ?s3 = heap s1" by simp
  have hp: "has_property h v k = has_property h (VObj a) k" for h k
    using has_property_raw [of h v k] assms(2) by simp
  from assms(1,2) obtain s4 ra s5 where
    pm: "privateMembers_forEach ?ms (VObj a) ?s3 = (Inr (), s4)"
    and at: "attach_listeners v l (length (handlers s1)) s4 = (ra, s5)"
    and h': "heap s' = heap s5"
  proof (cases rule: trace_object_phases)
    case (private_raised e)
    from assms(4) show ?thesis
    proof
      assume "o_extensible (heap s1 ! a)"
      with privateMembers_extensible [of a ?s3 ?ms] assms(3) private_raised(1)
      show ?thesis by simp
    next
      assume "\<exists>r. res = Inr r"
      with private_raised(2) show ?thesis by simp
    qed
  next
    case (attached s4 ra s5)
    from attached(1,2,3) show ?thesis by (rule that)
  qed
  note f = privateMembers_frame_all [OF pm, unfolded h3 privateMembers_names]
  from f assms(3) have valid4: "a < length (heap s4)" by simp
  note ah = attach_listeners_heap [OF at assms(2) valid4]
  show "map_of (o_props (heap s' ! a)) k =
             (if has_property (heap s1) v k = Inr True
              then map_of (o_props (heap s1 ! a)) k
              else Some \<lparr>p_value = x, p_writable = False, p_enumerable = False,
                         p_configurable = False\<rparr>)"
    if mem: "(k, x) \<in> set ?ms" for k x
  proof -
    from mem have "k \<noteq> ''addTraceListener''" by (auto simp: privateMembers_def)
    from ah(6) [OF this] h'
    have "map_of (o_props (heap s' ! a)) k = map_of (o_props (heap s4 ! a)) k" by simp
    also note privateMembers_defined [OF pm privateMembers_distinct mem, unfolded h3]
    finally show ?thesis by (simp add: hp)
  qed
  show "has_property (heap s') v k = Inr True"
    if k: "k \<in> {''__traceIdentifier'', ''__traceListeners'', ''__path''}" for k
  proof -
    from k have "k \<in> fst ` set ?ms" by (simp add: privateMembers_names)
    from privateMembers_present [OF pm this]
    have "has_property (heap s4) (VObj a) k = Inr True" .
    moreover from k have "k \<noteq> ''addTraceListener''" by auto
    ultimately have "has_property (heap s5) (VObj a) k = Inr True"
      by (rule attach_listeners_has_property(1) [OF at assms(2)])
    with h' show ?thesis by (simp add: hp)
  qed
qed

text \<open>What a trace that returns gives back.\<close>

lemma trace_object_result:
  assumes "trace_object path v l s1 = (Inr r, s')" and "raw v = VObj a"
  shows "a < length (heap s1)"
    and "r = VProxy (length (proxies s1)) v (length (handlers s1))"
    and "proxies s' = proxies s1 @ [(v, length (handlers s1))]"
proof -
  let ?s3 = "s1\<lparr>handlers := handlers s1 @ [\<lparr>h_path = path, h_listeners = l, h_target = v\<rparr>],
                 sequence := Suc (sequence s1)\<rparr>"
  have h3: "heap ?s3 = heap s1" by simp
  from assms obtain s4 s5 where
    pm: "privateMembers_forEach (privateMembers (sequence s1) l path) (VObj a) ?s3 = (Inr (), s4)"
    and at: "attach_listeners v l (length (handlers s1)) s4 = (Inr (), s5)"
    and r: "r = VProxy (length (proxies s5)) v (length (handlers s1))"
    and s': "s' = s5\<lparr>proxies := proxies s5 @ [(v, length (handlers s1))]\<rparr>"
  proof (cases rule: trace_object_phases)
    case (attached s4 ra s5)
    show ?thesis
    proof (cases ra)
      case (Inl e)
      with attached(5) show ?thesis by simp
    next
      case (Inr u)
      with attached(1,2,5) show ?thesis by (intro that [of s4 s5]) simp_all
    qed
  qed simp
  note f = privateMembers_frame_all [OF pm, unfolded h3]
  note fl = privateMembers_fields [OF pm]
  note af = attach_listeners_frame [OF at]
  from attach_listeners_valid [OF at assms(2)] f show "a < length (heap s1)" by simp
  from r af(3) fl show "r = VProxy (length (proxies s1)) v (length (handlers s1))" by simp
  from s' af(3) fl show "proxies s' = proxies s1 @ [(v, length (handlers s1))]" by simp
qed

section \<open>Proxies.trace: tracing again\<close>

text \<open>After a trace that returned, the object has a callable \<^verbatim>\<open>addTraceListener\<close>.\<close>

lemma trace_object_registered:
  assumes "trace_object path v l s1 = (Inr r, s')" and "raw v = VObj a"
  shows "\<exists>f b g. get_member (heap s') v ''addTraceListener'' = Inr f \<and> raw f = VObj b
               \<and> b < length (heap s') \<and> o_kind (heap s' ! b) = Function g"
proof -
  let ?s3 = "s1\<lparr>handlers := handlers s1 @ [\<lparr>h_path = path, h_listeners = l, h_target = v\<rparr>],
                 sequence := Suc (sequence s1)\<rparr>"
  have gm: "get_member h v k = get_member h (VObj a) k" for h k
    using get_member_raw [of h v k] assms(2) by simp
  have dp: "defineProperty v k x t = defineProperty (VObj a) k x t" for k x t
    using defineProperty_raw [of v k x t] assms(2) by simp
  from assms obtain s4 s5 where
    at: "attach_listeners v l (length (handlers s1)) s4 = (Inr (), s5)"
    and h': "heap s' = heap s5"
  proof (cases rule: trace_object_phases)
    case (attached s4 ra s5)
    show ?thesis
    proof (cases ra)
      case (Inl e)
      with attached(5) show ?thesis by simp
    next
      case (Inr u)
      with attached(2,3) show ?thesis by (intro that [of s4 s5]) simp_all
    qed
  qed simp
  from attach_listeners_valid [OF at assms(2)] have valid: "a < length (heap s4)" .
  from at have "\<exists>f b g. get_member (heap s5) v ''addTraceListener'' = Inr f \<and> raw f = VObj b
               \<and> b < length (heap s5) \<and> o_kind (heap s5 ! b) = Function g"
  proof (cases rule: attach_listeners_cases)
    case (called f)
    from call_method_Inr [OF called(3)] called(1) show ?thesis by auto
  next
    case (defined f)
    note d = defineProperty_obj [OF defined(3) [unfolded dp]]
    from d(9) obtain q where q: "map_of (o_props (heap s5 ! a)) ''addTraceListener'' = Some q"
      "p_value q = VObj (length (heap s4))" by blast
    have len: "length (heap s5) = Suc (length (heap s4))" using d(3) by simp
    with valid have "a < length (heap s5)" by simp
    from find_prop_own [OF this q(1)] this q(2)
    have "get_member (heap s5) v ''addTraceListener'' = Inr (VObj (length (heap s4)))"
      by (simp add: gm lookup_def)
    moreover have "heap s5 ! length (heap s4) = bound_function (length (handlers s1))"
      using d(4) [of "length (heap s4)"] valid by simp
    ultimately show ?thesis using len by (auto simp: bound_function_def)
  qed simp_all
  with h' show ?thesis by simp
qed

text \<open>Tracing an object that has the three private members and a callable
  \<^verbatim>\<open>addTraceListener\<close>, through any reference to it, returns and changes no existing
  heap cell.\<close>

lemma retrace:
  assumes tobj: "typeof (heap t) w = ''object''" and raw: "raw w = VObj a"
    and hidden: "\<And>k. k \<in> {''__traceIdentifier'', ''__traceListeners'', ''__path''} \<Longrightarrow>
                    has_property (heap t) w k = Inr True"
    and reg: "get_member (heap t) w ''addTraceListener'' = Inr f" "raw f = VObj b"
      "b < length (heap t)" "o_kind (heap t ! b) = Function g"
  shows "\<exists>r2 s2 xs. trace path2 w l2 t = (Inr r2, s2) \<and> heap s2 = heap t @ xs"
proof -
  have hp: "has_property h w k = has_property h (VObj a) k" for h k
    using has_property_raw [of h w k] raw by simp
  have gm: "get_member h w k = get_member h (VObj a) k" for h k
    using get_member_raw [of h w k] raw by simp
  obtain l s1 where arr: "asArray l2 t = (l, s1)" by (cases "asArray l2 t")
  from asArray_frame [OF arr] obtain xs where s1: "s1 = t\<lparr>heap := heap t @ xs\<rparr>" by blast
  from has_property_obj_valid(1) [OF hidden [of "''__path''", unfolded hp]]
  have valid: "a < length (heap t)" by simp
  have "isFrozen (heap t) w = isFrozen (heap t) (VObj a)"
    using isFrozen_raw [of "heap t" w] raw by simp
  with valid obtain fz where fz: "isFrozen (heap t) w = Inr fz"
    by (simp add: lookup_def)
  show ?thesis
  proof (cases fz)
    case True
    with fz have "isFrozen (heap t) w = Inr True" by simp
    from trace_frozen [OF tobj this, of path2 l2] arr s1 show ?thesis by simp
  next
    case False
    define s3 where "s3 = s1\<lparr>handlers := handlers s1 @ [\<lparr>h_path = path2, h_listeners = l,
                                                  h_target = w\<rparr>],
                            sequence := Suc (sequence s1)\<rparr>"
    have h3: "heap s3 = heap t @ xs" by (simp add: s3_def s1)
    have pm: "privateMembers_forEach (privateMembers (sequence s1) l path2) w s3 = (Inr (), s3)"
    proof (rule privateMembers_all_present)
      fix k assume "k \<in> fst ` set (privateMembers (sequence s1) l path2)"
      then have "k \<in> {''__traceIdentifier'', ''__traceListeners'', ''__path''}"
        by (simp add: privateMembers_names)
      from has_property_grow(1) [OF hidden [OF this, unfolded hp], of xs] h3
      show "has_property (heap s3) w k = Inr True" by (simp add: hp)
    qed
    from reg(2) have "f \<noteq> VUndefined" by auto
    from get_member_grow [OF reg(1) [unfolded gm] this, of xs] h3
    have get: "get_member (heap s3) w ''addTraceListener'' = Inr f" by (simp add: gm)
    have "call_method (VObj b) w l s3 = Inr (s3\<lparr>calls := calls s3 @ [(VObj b, w, l)]\<rparr>)"
      using reg(3,4) h3 by (simp add: lookup_def nth_append)
    with call_method_raw [of f w l s3] reg(2)
    have call: "call_method f w l s3 = Inr (s3\<lparr>calls := calls s3 @ [(VObj b, w, l)]\<rparr>)"
      by simp
    from reg(2) have tf: "truthy f" by (cases f) auto
    have at: "attach_listeners w l (length (handlers s1)) s3
                = (Inr (), s3\<lparr>calls := calls s3 @ [(VObj b, w, l)]\<rparr>)"
      using get call tf by (simp add: attach_listeners_def)
    have "trace_object path2 w l s1
            = (Inr (VProxy (length (proxies s3)) w (length (handlers s1))),
               s3\<lparr>calls := calls s3 @ [(VObj b, w, l)],
                   proxies := proxies s3 @ [(w, length (handlers s1))]\<rparr>)"
      using pm at new_Proxy_object [OF raw]
      by (simp add: trace_object_def new_TraceHandler_def next_sequence_def s3_def [symmetric])
    moreover from False fz have "isFrozen (heap t) w = Inr False" by simp
    note trace_nonfrozen [OF tobj this arr, of path2]
    ultimately show ?thesis using h3 by simp
  qed
qed

section \<open>Proxies: results\<close>

text \<open>
  Claim C1, as amended. For every input value whose \<^verbatim>\<open>typeof\<close> is not \<^verbatim>\<open>"object"\<close>
  (\<^verbatim>\<open>undefined\<close>, a boolean, a number, a string, a symbol, a function), both
  \<^verbatim>\<open>Proxies.create\<close> and \<^verbatim>\<open>Proxies.trace\<close> raise their error, and the state is then
  the state before the call: nothing has been mutated.
\<close>

theorem typeof_not_object_rejected_unmutated:
  assumes "typeof (heap s) v \<noteq> ''object''"
  shows "trace path v listeners s = (Inl (Error ''We can only trace object types.''), s)
       \<and> create Paths_create ObjectPaths_recurse v listeners opts s
           = (Inl (Error (''Only works on objects: '' @ typeof (heap s) v)), s)"
  using assms by (simp add: trace_def create_def)

theorem typeof_not_object_rejected_unmutated_witness:
  "typeof (heap (with_heap [object_literal [(''a'', VNum 1)]])) (VNum 5) \<noteq> ''object''
   \<and> trace ''/'' (VNum 5) VUndefined (with_heap [object_literal [(''a'', VNum 1)]])
       = (Inl (Error ''We can only trace object types.''), with_heap [object_literal [(''a'', VNum 1)]])
   \<and> create (\<lambda>p q. p @ q) (\<lambda>h t. []) (VNum 5) VUndefined None
         (with_heap [object_literal [(''a'', VNum 1)]])
       = (Inl (Error ''Only works on objects: number''), with_heap [object_literal [(''a'', VNum 1)]])"
  using typeof_not_object_rejected_unmutated
    [of "with_heap [object_literal [(''a'', VNum 1)]]" "VNum 5" "''/''" VUndefined
        "\<lambda>p q. p @ q" "\<lambda>h t. []" None]
  by simp

text \<open>
  Claim C1 as stated fails for \<^verbatim>\<open>null\<close>, which is not an object and whose
  \<^verbatim>\<open>typeof\<close> is \<^verbatim>\<open>"object"\<close>: \<^verbatim>\<open>Proxies.trace\<close> does not raise, it returns
  \<^verbatim>\<open>null\<close> (\<^verbatim>\<open>Object.isFrozen(null)\<close> is true).
\<close>

theorem trace_null_returns_null:
  "fst (trace ''/'' VNull VUndefined initial_state) = Inr VNull"
  by (simp add: trace_def asArray_def alloc_def initial_state_def)

text \<open>
  Claim C4. For every frozen value that passes the object check, \<^verbatim>\<open>Proxies.trace\<close>
  returns the value itself and does not raise; the counter, the handlers, the proxies and
  the recorded calls are unchanged, and no existing heap cell is changed, so the value has no
  new field. (The heap grows only by the list that the listener normalisation allocates, and
  not at all when the listeners are a list already.)
\<close>

theorem frozen_object_returned_untouched:
  assumes "typeof (heap s) v = ''object''" and "isFrozen (heap s) v = Inr True"
  shows "\<exists>s' xs. trace path v listeners s = (Inr v, s')
                \<and> s' = s\<lparr>heap := heap s @ xs\<rparr>
                \<and> (isArray (heap s) listeners \<longrightarrow> s' = s)
                \<and> (\<forall>a. v = VObj a \<longrightarrow> heap s' ! a = heap s ! a)"
proof -
  obtain l s1 where arr: "asArray listeners s = (l, s1)" by (cases "asArray listeners s")
  from asArray_frame [OF arr] obtain xs where s1: "s1 = s\<lparr>heap := heap s @ xs\<rparr>" by blast
  have t: "trace path v listeners s = (Inr v, s1)"
    using trace_frozen [OF assms, of path listeners] arr by simp
  have "isArray (heap s) listeners \<longrightarrow> s1 = s"
    using arr by (cases listeners) (auto simp: asArray_def)
  moreover have "heap s1 ! a = heap s ! a" if "v = VObj a" for a
    using assms(2) that s1 by (auto simp: lookup_def nth_append split: if_splits)
  ultimately show ?thesis using t s1 by blast
qed

theorem frozen_object_returned_untouched_witness:
  "typeof (heap frozen_state) (VObj 0) = ''object''
   \<and> isFrozen (heap frozen_state) (VObj 0) = Inr True
   \<and> trace ''/'' (VObj 0) (VObj 1) frozen_state
       = (Inr (VObj 0), frozen_state)"
proof -
  let ?s = "frozen_state"
  have h1: "typeof (heap ?s) (VObj 0) = ''object''"
    by (simp add: frozen_state_def with_heap_def initial_state_def lookup_def freeze_def object_literal_def)
  have h2: "isFrozen (heap ?s) (VObj 0) = Inr True"
    by (simp add: frozen_state_def with_heap_def initial_state_def lookup_def freeze_def object_literal_def
        frozen_obj_def)
  have h3: "isArray (heap ?s) (VObj 1)"
    by (simp add: frozen_state_def with_heap_def initial_state_def lookup_def empty_array_def)
  from frozen_object_returned_untouched [OF h1 h2, of "''/''" "VObj 1"] h3
  have "trace ''/'' (VObj 0) (VObj 1) ?s = (Inr (VObj 0), ?s)" by auto
  with h1 h2 show ?thesis by simp
qed

text \<open>The definitions that an evaluation of \<^verbatim>\<open>Proxies.trace\<close> on a given state unfolds.\<close>

lemmas model_defs = trace_def trace_object_def asArray_def alloc_def new_TraceHandler_def
  next_sequence_def privateMembers_def attach_listeners_def bind_addTraceListener_def
  bound_function_def lookup_def set_own_def frozen_obj_def initial_state_def with_heap_def
  object_literal_def freeze_def seal_def empty_array_def singleton_array_def TraceHandler_get_def
  example_state_def frozen_state_def sealed_state_def traced_once_def numbered_state_def
  mixed_state_def
  tree_state_def frozen_tree_state_def tree_entries_def join_paths_def create_def create_entry_def
  Objects_defaults_def

text \<open>The example states, evaluated.\<close>

lemma example_state_object:
  "typeof (heap example_state) (VObj 0) = ''object''"
  "isFrozen (heap example_state) (VObj 0) = Inr False"
  "asArray (VObj 1) example_state = (VObj 1, example_state)"
  by (simp_all add: asArray_def example_state_def with_heap_def initial_state_def lookup_def
      object_literal_def empty_array_def frozen_obj_def)

lemma traced_once_eq:
  "traced_once =
     \<lparr> sequence = 1,
       heap =
         [\<lparr> o_props =
              [(''a'', \<lparr>p_value = VNum 1, p_writable = True, p_enumerable = True,
                        p_configurable = True\<rparr>),
               (''__traceIdentifier'', \<lparr>p_value = VNum 0, p_writable = False,
                        p_enumerable = False, p_configurable = False\<rparr>),
               (''__traceListeners'', \<lparr>p_value = VObj 1, p_writable = False,
                        p_enumerable = False, p_configurable = False\<rparr>),
               (''__path'', \<lparr>p_value = VStr ''/'', p_writable = False,
                        p_enumerable = False, p_configurable = False\<rparr>),
               (''addTraceListener'', \<lparr>p_value = VObj 2, p_writable = False,
                        p_enumerable = False, p_configurable = False\<rparr>)],
            o_extensible = True, o_proto = None, o_kind = Plain \<rparr>,
          empty_array,
          bound_function 0],
       handlers = [\<lparr>h_path = ''/'', h_listeners = VObj 1, h_target = VObj 0\<rparr>],
       proxies = [(VObj 0, 0)],
       calls = [] \<rparr>"
  by (simp add: traced_once_def trace_def trace_object_def asArray_def alloc_def
      new_TraceHandler_def next_sequence_def privateMembers_def attach_listeners_def
      bind_addTraceListener_def lookup_def set_own_def frozen_obj_def initial_state_def
      with_heap_def object_literal_def example_state_def)
    (simp add: empty_array_def)

lemma example_trace:
  "trace ''/'' (VObj 0) (VObj 1) example_state = (Inr (VProxy 0 (VObj 0) 0), traced_once)"
proof -
  have "fst (trace ''/'' (VObj 0) (VObj 1) example_state) = Inr (VProxy 0 (VObj 0) 0)"
    by (simp add: model_defs)
  then show ?thesis by (simp add: traced_once_def prod_eq_iff)
qed

text \<open>
  Claim C2. "At most one Proxy and at most one Trace Handler ever exist for an object, however
  often \<^verbatim>\<open>Proxies.trace\<close> is applied to it." In the code, \<^verbatim>\<open>new TraceHandler\<close>
  (line 88) comes before the check for an existing \<^verbatim>\<open>addTraceListener\<close> and
  \<^verbatim>\<open>new Proxy\<close> (line 144) after it, outside both branches. Tracing the object
  \<^verbatim>\<open>{a: 1}\<close> twice, the second time through the same reference or through the proxy
  that the first call returned, leaves two Trace Handlers and two Proxies for the object, and
  the second Proxy is backed by the second handler.
\<close>

theorem two_traces_two_handlers_two_proxies:
  "fst (trace ''/'' (VObj 0) (VObj 1) example_state) = Inr (VProxy 0 (VObj 0) 0)
   \<and> map h_target (handlers (snd (trace ''/'' (VObj 0) (VObj 1) traced_once)))
       = [VObj 0, VObj 0]
   \<and> proxies (snd (trace ''/'' (VObj 0) (VObj 1) traced_once))
       = [(VObj 0, 0), (VObj 0, 1)]
   \<and> fst (trace ''/'' (VObj 0) (VObj 1) traced_once) = Inr (VProxy 1 (VObj 0) 1)
   \<and> map (\<lambda>h. raw (h_target h))
        (handlers (snd (trace ''/'' (VProxy 0 (VObj 0) 0) (VObj 1) traced_once)))
       = [VObj 0, VObj 0]
   \<and> map (\<lambda>p. raw (fst p))
        (proxies (snd (trace ''/'' (VProxy 0 (VObj 0) 0) (VObj 1) traced_once)))
       = [VObj 0, VObj 0]
   \<and> fst (trace ''/'' (VProxy 0 (VObj 0) 0) (VObj 1) traced_once)
       = Inr (VProxy 1 (VProxy 0 (VObj 0) 0) 1)"
  by (simp add: model_defs)

text \<open>
  Claim C3, as amended. On every extensible object, and in every call that returns a proxy,
  \<^verbatim>\<open>Proxies.trace\<close> defines each of \<^verbatim>\<open>__traceIdentifier\<close>,
  \<^verbatim>\<open>__traceListeners\<close> and \<^verbatim>\<open>__path\<close> on the object, non-writable, non-enumerable
  and non-configurable, if and only if the object does not have it (\<^verbatim>\<open>name in value\<close>,
  in the heap as it is once the listeners are normalised), and leaves it as it is otherwise.
  For every value that has been traced once, tracing it again, through the same reference or
  through any proxy of the object, with any path and any listeners, returns, and reads of the
  three fields, and the three own properties, are unchanged.
\<close>

theorem hidden_fields_defined_once:
  "(typeof (heap s) v = ''object'' \<and> isFrozen (heap s) v = Inr False \<and> raw v = VObj a
      \<and> asArray listeners s = (l, s1) \<and> trace path v listeners s = (res, s')
      \<and> (o_extensible (heap s ! a) \<or> (\<exists>r. res = Inr r))
    \<longrightarrow>
      (\<forall>(k, x) \<in> set (privateMembers (sequence s) l path).
          map_of (o_props (heap s' ! a)) k =
            (if has_property (heap s1) v k = Inr True
             then map_of (o_props (heap s1 ! a)) k
             else Some \<lparr>p_value = x, p_writable = False, p_enumerable = False,
                        p_configurable = False\<rparr>)))
   \<and> (typeof (heap s) v = ''object'' \<and> isFrozen (heap s) v = Inr False \<and> raw v = VObj a
      \<and> trace path v listeners s = (Inr r, s')
    \<longrightarrow>
      (\<forall>w path2 listeners2. raw w = VObj a \<longrightarrow>
         (\<exists>r2 s2.
            trace path2 w listeners2 s' = (Inr r2, s2)
            \<and> (\<forall>k \<in> {''__traceIdentifier'', ''__traceListeners'', ''__path''}.
                  get_member (heap s2) w k = get_member (heap s') w k
                  \<and> map_of (o_props (heap s2 ! a)) k = map_of (o_props (heap s' ! a)) k))))"
proof (intro conjI impI)
  assume h: "typeof (heap s) v = ''object'' \<and> isFrozen (heap s) v = Inr False \<and> raw v = VObj a
      \<and> asArray listeners s = (l, s1) \<and> trace path v listeners s = (res, s')
      \<and> (o_extensible (heap s ! a) \<or> (\<exists>r. res = Inr r))"
  then have raw: "raw v = VObj a" and arr: "asArray listeners s = (l, s1)" by simp_all
  from h obtain a' where "raw v = VObj a'" "a' < length (heap s)"
    by (elim conjE isFrozen_False_obj)
  with raw have valid: "a < length (heap s)" by simp
  from asArray_frame [OF arr] obtain xs where s1: "s1 = s\<lparr>heap := heap s @ xs\<rparr>" by blast
  from h arr have t: "trace_object path v l s1 = (res, s')"
    using trace_nonfrozen [of s v listeners l s1 path] by simp
  have seq: "sequence s1 = sequence s" by (simp add: s1)
  from valid have valid1: "a < length (heap s1)" and cell: "heap s1 ! a = heap s ! a"
    by (simp_all add: s1 nth_append)
  from h cell have "o_extensible (heap s1 ! a) \<or> (\<exists>r. res = Inr r)" by simp
  from trace_object_hidden(1) [OF t raw valid1 this, unfolded seq]
  show "\<forall>(k, x) \<in> set (privateMembers (sequence s) l path).
          map_of (o_props (heap s' ! a)) k =
            (if has_property (heap s1) v k = Inr True
             then map_of (o_props (heap s1 ! a)) k
             else Some \<lparr>p_value = x, p_writable = False, p_enumerable = False,
                        p_configurable = False\<rparr>)"
    by blast
next
  assume h: "typeof (heap s) v = ''object'' \<and> isFrozen (heap s) v = Inr False \<and> raw v = VObj a
      \<and> trace path v listeners s = (Inr r, s')"
  then have tobj: "typeof (heap s) v = ''object''" and raw: "raw v = VObj a" by simp_all
  obtain l s1 where arr: "asArray listeners s = (l, s1)" by (cases "asArray listeners s")
  from h obtain a' where "raw v = VObj a'" "a' < length (heap s)"
    by (elim conjE isFrozen_False_obj)
  with raw have valid: "a < length (heap s)" by simp
  from asArray_frame [OF arr] obtain xs where s1: "s1 = s\<lparr>heap := heap s @ xs\<rparr>" by blast
  from h arr have t: "trace_object path v l s1 = (Inr r, s')"
    using trace_nonfrozen [of s v listeners l s1 path] by simp
  from valid have valid1: "a < length (heap s1)" and cell: "heap s1 ! a = heap s ! a"
    by (simp_all add: s1 nth_append)
  note fr = trace_object_frame [OF t raw valid1]
  from fr(1) valid1 have valid': "a < length (heap s')" by simp
  have present: "has_property (heap s') (VObj a) k = Inr True"
    if "k \<in> {''__traceIdentifier'', ''__traceListeners'', ''__path''}" for k
    using trace_object_hidden(2) [OF t raw valid1 _ that] has_property_raw [of "heap s'" v k] raw
    by auto
  from tobj typeof_raw [of "heap s" v] raw valid valid' fr(5) cell
  have tobj': "typeof (heap s') (VObj a) = ''object''"
    by (simp add: lookup_def)
  from trace_object_registered [OF t raw] get_member_raw [of "heap s'" v] raw obtain f b g where
    reg: "get_member (heap s') (VObj a) ''addTraceListener'' = Inr f" "raw f = VObj b"
      "b < length (heap s')" "o_kind (heap s' ! b) = Function g"
    by auto
  show "\<forall>w path2 listeners2. raw w = VObj a \<longrightarrow>
         (\<exists>r2 s2.
            trace path2 w listeners2 s' = (Inr r2, s2)
            \<and> (\<forall>k \<in> {''__traceIdentifier'', ''__traceListeners'', ''__path''}.
                  get_member (heap s2) w k = get_member (heap s') w k
                  \<and> map_of (o_props (heap s2 ! a)) k = map_of (o_props (heap s' ! a)) k))"
  proof (intro allI impI)
    fix w path2 listeners2 assume w: "raw w = VObj a"
    have hp: "has_property h w k = has_property h (VObj a) k" for h k
      using has_property_raw [of h w k] w by simp
    have gm: "get_member h w k = get_member h (VObj a) k" for h k
      using get_member_raw [of h w k] w by simp
    from tobj' typeof_raw [of "heap s'" w] w have tw: "typeof (heap s') w = ''object''" by simp
    from retrace [OF tw w _ reg(1) [folded gm] reg(2,3,4), of path2 listeners2] present
    obtain r2 s2 ys where
      t2: "trace path2 w listeners2 s' = (Inr r2, s2)" and h2: "heap s2 = heap s' @ ys"
      by (auto simp: hp)
    have "get_member (heap s2) w k = get_member (heap s') w k
          \<and> map_of (o_props (heap s2 ! a)) k = map_of (o_props (heap s' ! a)) k"
      if "k \<in> {''__traceIdentifier'', ''__traceListeners'', ''__path''}" for k
      using has_property_grow(2) [OF present [OF that], of ys] h2 valid'
      by (simp add: gm nth_append)
    with t2 show "\<exists>r2 s2.
            trace path2 w listeners2 s' = (Inr r2, s2)
            \<and> (\<forall>k \<in> {''__traceIdentifier'', ''__traceListeners'', ''__path''}.
                  get_member (heap s2) w k = get_member (heap s') w k
                  \<and> map_of (o_props (heap s2 ! a)) k = map_of (o_props (heap s' ! a)) k)"
      by blast
  qed
qed

theorem hidden_fields_defined_once_witness:
  "typeof (heap example_state) (VObj 0) = ''object''
   \<and> isFrozen (heap example_state) (VObj 0) = Inr False
   \<and> o_extensible (heap example_state ! 0)
   \<and> asArray (VObj 1) example_state = (VObj 1, example_state)
   \<and> trace ''/'' (VObj 0) (VObj 1) example_state = (Inr (VProxy 0 (VObj 0) 0), traced_once)
   \<and> map_of (o_props (heap traced_once ! 0)) ''__path''
       = Some \<lparr>p_value = VStr ''/'', p_writable = False, p_enumerable = False,
                p_configurable = False\<rparr>
   \<and> get_member (heap (snd (trace ''/again'' (VProxy 0 (VObj 0) 0) VUndefined traced_once)))
         (VProxy 0 (VObj 0) 0) ''__traceIdentifier'' = Inr (VNum 0)
   \<and> get_member (heap (snd (trace ''/again'' (VProxy 0 (VObj 0) 0) VUndefined traced_once)))
         (VProxy 0 (VObj 0) 0) ''__traceListeners'' = Inr (VObj 1)
   \<and> get_member (heap (snd (trace ''/again'' (VProxy 0 (VObj 0) 0) VUndefined traced_once)))
         (VProxy 0 (VObj 0) 0) ''__path'' = Inr (VStr ''/'')"
proof -
  let ?p = "VProxy 0 (VObj 0) 0"
  have ext: "o_extensible (heap example_state ! 0)"
    by (simp add: example_state_def with_heap_def initial_state_def object_literal_def)
  note first = hidden_fields_defined_once
    [where s = example_state and v = "VObj 0" and a = 0 and listeners = "VObj 1"
       and l = "VObj 1" and ?s1.0 = example_state and path = "''/''"
       and res = "Inr (VProxy 0 (VObj 0) 0)" and s' = traced_once,
     THEN conjunct1, rule_format]
  have mem: "(''__path'', VStr ''/'') \<in> set (privateMembers (sequence example_state) (VObj 1) ''/'')"
    by (simp add: privateMembers_def)
  have absent: "has_property (heap example_state) (VObj 0) ''__path'' \<noteq> Inr True"
    by (simp add: example_state_def with_heap_def initial_state_def lookup_def
        object_literal_def empty_array_def)
  from first [OF _ mem] example_state_object example_trace ext absent
  have p: "map_of (o_props (heap traced_once ! 0)) ''__path''
       = Some \<lparr>p_value = VStr ''/'', p_writable = False, p_enumerable = False,
                p_configurable = False\<rparr>"
    by simp
  note again = hidden_fields_defined_once
    [where s = example_state and v = "VObj 0" and a = 0 and listeners = "VObj 1"
       and path = "''/''" and r = "VProxy 0 (VObj 0) 0" and s' = traced_once,
     THEN conjunct2, rule_format, of ?p "''/again''" VUndefined]
  from again example_state_object(1,2) example_trace obtain r2 s2 where
    t2: "trace ''/again'' ?p VUndefined traced_once = (Inr r2, s2)"
    and same: "\<forall>k \<in> {''__traceIdentifier'', ''__traceListeners'', ''__path''}.
                  get_member (heap s2) ?p k = get_member (heap traced_once) ?p k"
    by auto
  have before: "get_member (heap traced_once) ?p ''__traceIdentifier'' = Inr (VNum 0)"
    "get_member (heap traced_once) ?p ''__traceListeners'' = Inr (VObj 1)"
    "get_member (heap traced_once) ?p ''__path'' = Inr (VStr ''/'')"
    by (simp_all add: traced_once_eq lookup_def TraceHandler_get_def)
  from same t2 before
  have "get_member (heap (snd (trace ''/again'' ?p VUndefined traced_once))) ?p
         ''__traceIdentifier'' = Inr (VNum 0)"
    "get_member (heap (snd (trace ''/again'' ?p VUndefined traced_once))) ?p
         ''__traceListeners'' = Inr (VObj 1)"
    "get_member (heap (snd (trace ''/again'' ?p VUndefined traced_once))) ?p
         ''__path'' = Inr (VStr ''/'')"
    by simp_all
  with example_state_object example_trace ext p show ?thesis by blast
qed

text \<open>
  Claim C3 as stated fails on a sealed object: it is not frozen and has none of the three
  fields, and none of them is defined.
\<close>

theorem sealed_object_fields_not_defined:
  "typeof (heap sealed_state) (VObj 0) = ''object''
   \<and> isFrozen (heap sealed_state) (VObj 0) = Inr False
   \<and> has_property (heap sealed_state) (VObj 0) ''__traceIdentifier'' = Inr False
   \<and> has_property (heap sealed_state) (VObj 0) ''__traceListeners'' = Inr False
   \<and> has_property (heap sealed_state) (VObj 0) ''__path'' = Inr False
   \<and> map_of (o_props (heap (snd (trace ''/'' (VObj 0) (VObj 1) sealed_state)) ! 0))
        ''__traceIdentifier'' = None
   \<and> map_of (o_props (heap (snd (trace ''/'' (VObj 0) (VObj 1) sealed_state)) ! 0))
        ''__traceListeners'' = None
   \<and> map_of (o_props (heap (snd (trace ''/'' (VObj 0) (VObj 1) sealed_state)) ! 0))
        ''__path'' = None"
  by (simp add: model_defs)

lemma defineProperty_accepts:
  assumes "a < length (heap t)"
    and "case map_of (o_props (heap t ! a)) k of
           None \<Rightarrow> o_extensible (heap t ! a)
         | Some p \<Rightarrow> p_configurable p \<or> (\<not> p_enumerable p \<and> p_writable p)"
  shows "\<exists>t'. defineProperty (VObj a) k x t = Inr t'"
  using assms by (auto simp: lookup_def split: option.splits)

text \<open>
  Claim C5, as amended. For a value that is not frozen and on which the three hidden fields
  are present or can be defined: if \<^verbatim>\<open>value.addTraceListener\<close> is a function, the
  listener list is passed to it, with the value as \<^verbatim>\<open>this\<close>, no function is created
  and the value's own \<^verbatim>\<open>addTraceListener\<close> property is as before; if
  \<^verbatim>\<open>value.addTraceListener\<close> is falsy and the object takes the property (it is
  extensible and has no own \<^verbatim>\<open>addTraceListener\<close>, or its own
  \<^verbatim>\<open>addTraceListener\<close> is configurable, or non-enumerable and writable), the value's own
  \<^verbatim>\<open>addTraceListener\<close> becomes a new function, which is \<^verbatim>\<open>addTraceListener\<close> bound
  to the handler constructed by this call, and the property is non-enumerable and
  non-writable. In both cases the call returns.
\<close>

theorem addTraceListener_dispatch:
  assumes "typeof (heap s) v = ''object''" and "isFrozen (heap s) v = Inr False"
    and "raw v = VObj a" and "asArray listeners s = (l, s1)"
    and "o_extensible (heap s ! a)
         \<or> (\<forall>k \<in> {''__traceIdentifier'', ''__traceListeners'', ''__path''}.
                has_property (heap s1) v k = Inr True)"
    and "get_member (heap s1) v ''addTraceListener'' = Inr f"
  shows "(raw f = VObj b \<and> b < length (heap s1) \<and> o_kind (heap s1 ! b) = Function g
          \<longrightarrow> (\<exists>r s'. trace path v listeners s = (Inr r, s')
                 \<and> calls s' = calls s @ [(VObj b, v, l)]
                 \<and> length (heap s') = length (heap s1)
                 \<and> map_of (o_props (heap s' ! a)) ''addTraceListener''
                     = map_of (o_props (heap s1 ! a)) ''addTraceListener''))
       \<and> (\<not> truthy f
            \<and> (case map_of (o_props (heap s1 ! a)) ''addTraceListener'' of
                  None \<Rightarrow> o_extensible (heap s1 ! a)
                | Some p \<Rightarrow> p_configurable p \<or> (\<not> p_enumerable p \<and> p_writable p))
          \<longrightarrow> (\<exists>r s'. trace path v listeners s = (Inr r, s')
                 \<and> calls s' = calls s
                 \<and> length (heap s') = Suc (length (heap s1))
                 \<and> heap s' ! length (heap s1) = bound_function (length (handlers s))
                 \<and> handlers s' ! length (handlers s)
                     = \<lparr>h_path = path, h_listeners = l, h_target = v\<rparr>
                 \<and> (\<exists>p. map_of (o_props (heap s' ! a)) ''addTraceListener'' = Some p
                        \<and> p_value p = VObj (length (heap s1))
                        \<and> \<not> p_enumerable p \<and> \<not> p_writable p)))"
proof -
  note raw = assms(3) and arr = assms(4)
  let ?hid = "length (handlers s)"
  from assms(2) obtain a' where "raw v = VObj a'" "a' < length (heap s)"
    by (rule isFrozen_False_obj)
  with raw have valid: "a < length (heap s)" by simp
  from asArray_frame [OF arr] obtain xs where s1: "s1 = s\<lparr>heap := heap s @ xs\<rparr>" by blast
  from valid have valid1: "a < length (heap s1)" and cell: "heap s1 ! a = heap s ! a"
    by (simp_all add: s1 nth_append)
  have hs1: "handlers s1 = handlers s" and cs1: "calls s1 = calls s"
    and q1: "sequence s1 = sequence s"
    by (simp_all add: s1)
  have gm: "get_member h v k = get_member h (VObj a) k" for h k
    using get_member_raw [of h v k] raw by simp
  have dp: "defineProperty v k x t = defineProperty (VObj a) k x t" for k x t
    using defineProperty_raw [of v k x t] raw by simp
  have t: "trace path v listeners s = trace_object path v l s1"
    by (rule trace_nonfrozen [OF assms(1,2) arr])
  obtain res s' where to: "trace_object path v l s1 = (res, s')"
    by (cases "trace_object path v l s1")
  let ?s3 = "s1\<lparr>handlers := handlers s1 @ [\<lparr>h_path = path, h_listeners = l, h_target = v\<rparr>],
                 sequence := Suc (sequence s1)\<rparr>"
  let ?ms = "privateMembers (sequence s1) l path"
  have h3: "heap ?s3 = heap s1" by simp
  have "o_extensible (heap ?s3 ! a)
         \<or> (\<forall>k \<in> fst ` set ?ms. has_property (heap ?s3) v k = Inr True)"
    using assms(5) cell by (simp add: privateMembers_names)
  from privateMembers_succeeds [OF raw _ this] valid1
    privateMembers_forEach_raw [of ?ms v ?s3] raw
  obtain s4' where ok: "privateMembers_forEach ?ms (VObj a) ?s3 = (Inr (), s4')"
    by auto
  from to raw obtain s4 ra s5 where
    pm: "privateMembers_forEach ?ms (VObj a) ?s3 = (Inr (), s4)"
    and at: "attach_listeners v l (length (handlers s1)) s4 = (ra, s5)"
    and h': "heap s' = heap s5" and c': "calls s' = calls s5"
    and out: "case ra of Inl e \<Rightarrow> res = Inl e \<and> s' = s5
         | Inr u \<Rightarrow> res = Inr (VProxy (length (proxies s5)) v (length (handlers s1)))
                    \<and> s' = s5\<lparr>proxies := proxies s5 @ [(v, length (handlers s1))]\<rparr>"
  proof (cases rule: trace_object_phases)
    case (private_raised e)
    with ok show ?thesis by simp
  next
    case (attached s4 ra s5)
    then show ?thesis by (intro that [of s4 ra s5])
  qed
  have notin: "''addTraceListener'' \<notin> fst ` set ?ms"
    by (simp add: privateMembers_names)
  note f = privateMembers_frame_all [OF pm, unfolded h3]
  note fl = privateMembers_fields [OF pm]
  have len4: "length (heap s4) = length (heap s1)" using f by simp
  have valid4: "a < length (heap s4)" using valid1 len4 by simp
  have get4: "get_member (heap s4) v ''addTraceListener'' = Inr f"
    using privateMembers_other_key(2) [OF pm notin, unfolded h3, of v] assms(6) by simp
  have own4: "map_of (o_props (heap s4 ! a)) ''addTraceListener''
                = map_of (o_props (heap s1 ! a)) ''addTraceListener''"
    using f notin by blast
  have ext4: "o_extensible (heap s4 ! a) = o_extensible (heap s1 ! a)" using f by simp
  have calls4: "calls s4 = calls s" using fl cs1 by simp
  have hnd: "handlers s' ! length (handlers s) = \<lparr>h_path = path, h_listeners = l, h_target = v\<rparr>"
    using trace_object_always(2) [OF to] hs1 by simp
  have merged: "\<exists>r s'. trace path v listeners s = (Inr r, s')
                 \<and> calls s' = calls s @ [(VObj b, v, l)]
                 \<and> length (heap s') = length (heap s1)
                 \<and> map_of (o_props (heap s' ! a)) ''addTraceListener''
                     = map_of (o_props (heap s1 ! a)) ''addTraceListener''"
    if fn: "raw f = VObj b" "b < length (heap s1)" "o_kind (heap s1 ! b) = Function g"
  proof -
    from fn(1) have tf: "truthy f" by (cases f) auto
    have "o_kind (heap s4 ! b) = o_kind (heap s1 ! b)"
      using f by (cases "b = a") auto
    with fn len4 have "call_method (VObj b) v l s4 = Inr (s4\<lparr>calls := calls s4 @ [(VObj b, v, l)]\<rparr>)"
      by (simp add: lookup_def)
    with call_method_raw [of f v l s4] fn(1)
    have call: "call_method f v l s4 = Inr (s4\<lparr>calls := calls s4 @ [(VObj b, v, l)]\<rparr>)"
      by simp
    from get4 tf call at
    have ra: "ra = Inr ()" and s5: "s5 = s4\<lparr>calls := calls s4 @ [(VObj b, v, l)]\<rparr>"
      by (simp_all add: attach_listeners_def)
    from out ra have "trace_object path v l s1 = (Inr (VProxy (length (proxies s5)) v (length (handlers s1))), s')"
      using to by simp
    moreover have "calls s' = calls s @ [(VObj b, v, l)]"
      using c' s5 calls4 by simp
    moreover have "length (heap s') = length (heap s1)"
      using h' s5 len4 by simp
    moreover have "map_of (o_props (heap s' ! a)) ''addTraceListener''
                     = map_of (o_props (heap s1 ! a)) ''addTraceListener''"
      using h' s5 own4 by simp
    ultimately show ?thesis using t by simp
  qed
  have installed: "\<exists>r s'. trace path v listeners s = (Inr r, s')
                 \<and> calls s' = calls s
                 \<and> length (heap s') = Suc (length (heap s1))
                 \<and> heap s' ! length (heap s1) = bound_function (length (handlers s))
                 \<and> handlers s' ! length (handlers s)
                     = \<lparr>h_path = path, h_listeners = l, h_target = v\<rparr>
                 \<and> (\<exists>p. map_of (o_props (heap s' ! a)) ''addTraceListener'' = Some p
                        \<and> p_value p = VObj (length (heap s1))
                        \<and> \<not> p_enumerable p \<and> \<not> p_writable p)"
    if nf: "\<not> truthy f"
      and acc: "case map_of (o_props (heap s1 ! a)) ''addTraceListener'' of
                  None \<Rightarrow> o_extensible (heap s1 ! a)
                | Some p \<Rightarrow> p_configurable p \<or> (\<not> p_enumerable p \<and> p_writable p)"
  proof -
    let ?t = "s4\<lparr>heap := heap s4 @ [bound_function (length (handlers s1))]\<rparr>"
    have "a < length (heap ?t)" using valid4 by simp
    moreover have "case map_of (o_props (heap ?t ! a)) ''addTraceListener'' of
                  None \<Rightarrow> o_extensible (heap ?t ! a)
                | Some p \<Rightarrow> p_configurable p \<or> (\<not> p_enumerable p \<and> p_writable p)"
      using acc own4 ext4 valid4 by (auto simp: nth_append split: option.splits)
    ultimately obtain t' where
      d: "defineProperty (VObj a) ''addTraceListener'' (VObj (length (heap s4))) ?t = Inr t'"
      using defineProperty_accepts by blast
    from get4 nf d at
    have ra: "ra = Inr ()" and s5: "s5 = t'"
      by (simp_all add: attach_listeners_def bind_addTraceListener_def alloc_def dp)
    note dd = defineProperty_obj [OF d]
    from dd(9) obtain q where q: "map_of (o_props (heap t' ! a)) ''addTraceListener'' = Some q"
      "p_value q = VObj (length (heap s4))" "\<not> p_writable q" "\<not> p_enumerable q" by blast
    have cell: "heap t' ! length (heap s4) = bound_function (length (handlers s1))"
      using dd(4) [of "length (heap s4)"] valid4 by simp
    have len: "length (heap t') = Suc (length (heap s4))" using dd(3) by simp
    have cl: "calls t' = calls s4" using defineProperty_fields(4) [OF d] by simp
    from out ra have "trace_object path v l s1 = (Inr (VProxy (length (proxies s5)) v (length (handlers s1))), s')"
      using to by simp
    with t have "trace path v listeners s = (Inr (VProxy (length (proxies s5)) v (length (handlers s1))), s')"
      by simp
    moreover have "calls s' = calls s" using c' s5 cl calls4 by simp
    moreover have "length (heap s') = Suc (length (heap s1))" using h' s5 len len4 by simp
    moreover have "heap s' ! length (heap s1) = bound_function (length (handlers s))"
      using h' s5 cell len4 hs1 by simp
    moreover have "\<exists>p. map_of (o_props (heap s' ! a)) ''addTraceListener'' = Some p
                        \<and> p_value p = VObj (length (heap s1))
                        \<and> \<not> p_enumerable p \<and> \<not> p_writable p"
      using h' s5 q len4 by simp
    ultimately show ?thesis using hnd by blast
  qed
  from merged installed show ?thesis by blast
qed

theorem addTraceListener_dispatch_witness:
  "typeof (heap example_state) (VObj 0) = ''object''
   \<and> isFrozen (heap example_state) (VObj 0) = Inr False
   \<and> asArray (VObj 1) example_state = (VObj 1, example_state)
   \<and> o_extensible (heap example_state ! 0)
   \<and> get_member (heap example_state) (VObj 0) ''addTraceListener'' = Inr VUndefined
   \<and> map_of (o_props (heap example_state ! 0)) ''addTraceListener'' = None
   \<and> trace ''/'' (VObj 0) (VObj 1) example_state = (Inr (VProxy 0 (VObj 0) 0), traced_once)
   \<and> heap traced_once ! 2 = bound_function 0
   \<and> handlers traced_once ! 0 = \<lparr>h_path = ''/'', h_listeners = VObj 1, h_target = VObj 0\<rparr>
   \<and> calls traced_once = []
   \<and> typeof (heap traced_once) (VProxy 0 (VObj 0) 0) = ''object''
   \<and> isFrozen (heap traced_once) (VProxy 0 (VObj 0) 0) = Inr False
   \<and> asArray (VObj 1) traced_once = (VObj 1, traced_once)
   \<and> get_member (heap traced_once) (VProxy 0 (VObj 0) 0) ''addTraceListener'' = Inr (VObj 2)
   \<and> o_kind (heap traced_once ! 2) = Function (BoundAddTraceListener 0)
   \<and> fst (trace ''/again'' (VProxy 0 (VObj 0) 0) (VObj 1) traced_once)
       = Inr (VProxy 1 (VProxy 0 (VObj 0) 0) 1)
   \<and> calls (snd (trace ''/again'' (VProxy 0 (VObj 0) 0) (VObj 1) traced_once))
       = [(VObj 2, VProxy 0 (VObj 0) 0, VObj 1)]
   \<and> length (heap (snd (trace ''/again'' (VProxy 0 (VObj 0) 0) (VObj 1) traced_once))) = 3"
proof -
  let ?p = "VProxy 0 (VObj 0) 0"
  have e: "o_extensible (heap example_state ! 0)"
    "get_member (heap example_state) (VObj 0) ''addTraceListener'' = Inr VUndefined"
    "map_of (o_props (heap example_state ! 0)) ''addTraceListener'' = None"
    by (simp_all add: example_state_def with_heap_def initial_state_def lookup_def
        object_literal_def empty_array_def)
  have len: "length (heap example_state) = 2" "length (handlers example_state) = 0"
    "calls example_state = []"
    by (simp_all add: example_state_def with_heap_def initial_state_def)
  note install = addTraceListener_dispatch
    [where s = example_state and v = "VObj 0" and a = 0 and listeners = "VObj 1"
       and l = "VObj 1" and ?s1.0 = example_state and f = VUndefined and path = "''/''",
     OF example_state_object(1,2) _ example_state_object(3) disjI1 [OF e(1)] e(2),
     THEN conjunct2, rule_format]
  from install e(1,3) example_trace len
  have i: "heap traced_once ! 2 = bound_function 0"
    "handlers traced_once ! 0 = \<lparr>h_path = ''/'', h_listeners = VObj 1, h_target = VObj 0\<rparr>"
    "calls traced_once = []"
    by auto
  have t: "typeof (heap traced_once) ?p = ''object''"
    "isFrozen (heap traced_once) ?p = Inr False"
    "asArray (VObj 1) traced_once = (VObj 1, traced_once)"
    "o_extensible (heap traced_once ! 0)"
    "get_member (heap traced_once) ?p ''addTraceListener'' = Inr (VObj 2)"
    "o_kind (heap traced_once ! 2) = Function (BoundAddTraceListener 0)"
    "length (heap traced_once) = 3"
    by (simp_all add: traced_once_eq lookup_def frozen_obj_def asArray_def empty_array_def
        bound_function_def TraceHandler_get_def)
  note merge = addTraceListener_dispatch
    [where s = traced_once and v = ?p and a = 0 and listeners = "VObj 1"
       and l = "VObj 1" and ?s1.0 = traced_once and f = "VObj 2" and b = 2
       and g = "BoundAddTraceListener 0" and path = "''/again''",
     OF t(1,2) _ t(3) disjI1 [OF t(4)] t(5), THEN conjunct1, rule_format]
  from merge t(6,7) i(3) obtain r s' where
    m: "trace ''/again'' ?p (VObj 1) traced_once = (Inr r, s')"
      "calls s' = [(VObj 2, ?p, VObj 1)]" "length (heap s') = 3"
    by auto
  have r: "fst (trace ''/again'' ?p (VObj 1) traced_once) = Inr (VProxy 1 ?p 1)"
    by (simp add: model_defs)
  from m have "calls (snd (trace ''/again'' ?p (VObj 1) traced_once)) = [(VObj 2, ?p, VObj 1)]"
    "length (heap (snd (trace ''/again'' ?p (VObj 1) traced_once))) = 3"
    by simp_all
  with example_state_object e example_trace i t(1,2,3,5,6) r show ?thesis by blast
qed

text \<open>
  Claim C5 as stated fails. The object \<^verbatim>\<open>{addTraceListener: 1}\<close> exposes no method
  \<^verbatim>\<open>addTraceListener\<close>, and no registration method is installed: the number is truthy,
  so it is called, and the call raises. A sealed object exposes none either, and none is
  installed.
\<close>

theorem truthy_addTraceListener_is_called:
  "get_member (heap numbered_state) (VObj 0) ''addTraceListener'' = Inr (VNum 1)
   \<and> fst (trace ''/'' (VObj 0) (VObj 1) numbered_state) = Inl TypeError
   \<and> map_of (o_props (heap (snd (trace ''/'' (VObj 0) (VObj 1) numbered_state)) ! 0))
        ''addTraceListener''
       = Some \<lparr>p_value = VNum 1, p_writable = True, p_enumerable = True, p_configurable = True\<rparr>
   \<and> length (heap (snd (trace ''/'' (VObj 0) (VObj 1) numbered_state))) = 2
   \<and> get_member (heap sealed_state) (VObj 0) ''addTraceListener'' = Inr VUndefined
   \<and> fst (trace ''/'' (VObj 0) (VObj 1) sealed_state) = Inl TypeError
   \<and> map_of (o_props (heap (snd (trace ''/'' (VObj 0) (VObj 1) sealed_state)) ! 0))
        ''addTraceListener'' = None"
  by (simp add: model_defs)

section \<open>Trace identifiers: what a call does to them\<close>

lemma own_identifier_cong:
  assumes "map_of (o_props c') ''__traceIdentifier'' = map_of (o_props c) ''__traceIdentifier''"
  shows "own_identifier c' = own_identifier c"
  using assms by (simp add: own_identifier_def)

lemma identifiers_kept_refl: "identifiers_kept h h"
  by (simp add: identifiers_kept_def)

lemma identifiers_kept_trans:
  assumes "identifiers_kept h1 h2" and "identifiers_kept h2 h3"
  shows "identifiers_kept h1 h3"
proof -
  from assms have l12: "length h1 \<le> length h2" and l23: "length h2 \<le> length h3"
    and p12: "\<And>i. i < length h2 \<Longrightarrow>
                own_identifier (h2 ! i) = (if i < length h1 then own_identifier (h1 ! i) else None)"
    and p23: "\<And>i. i < length h3 \<Longrightarrow>
                own_identifier (h3 ! i) = (if i < length h2 then own_identifier (h2 ! i) else None)"
    by (simp_all add: identifiers_kept_def)
  have "own_identifier (h3 ! i) = (if i < length h1 then own_identifier (h1 ! i) else None)"
    if "i < length h3" for i
  proof (cases "i < length h2")
    case True
    with p23 [OF that] p12 [OF True] show ?thesis by simp
  next
    case False
    with p23 [OF that] l12 show ?thesis by simp
  qed
  with l12 l23 show ?thesis by (simp add: identifiers_kept_def)
qed

lemma identifiers_kept_append:
  assumes "own_identifier c = None"
  shows "identifiers_kept h (h @ [c])"
  using assms by (auto simp: identifiers_kept_def nth_append less_Suc_eq)

lemma identifiers_unique_iff:
  "identifiers_unique s \<longleftrightarrow>
     (\<forall>i < length (heap s). \<forall>n. own_identifier (heap s ! i) = Some n \<longrightarrow>
        n < int (sequence s)
        \<and> (\<forall>j < length (heap s). j \<noteq> i \<longrightarrow> own_identifier (heap s ! j) \<noteq> Some n))"
proof -
  show ?thesis
    by (simp add: identifiers_unique_def list_all_iff Ball_def split: option.split) blast
qed

lemma asArray_identifiers:
  assumes "asArray input s = (l, s1)"
  shows "identifiers_kept (heap s) (heap s1)"
proof -
  have "own_identifier empty_array = None" and "own_identifier (singleton_array input) = None"
    by (simp_all add: own_identifier_def empty_array_def singleton_array_def)
  with assms show ?thesis
    by (auto simp: asArray_def alloc_def identifiers_kept_refl identifiers_kept_append
        split: if_splits)
qed

lemma defineProperty_identifiers:
  assumes "defineProperty v k x s = Inr s'" and "k \<noteq> ''__traceIdentifier''"
  shows "identifiers_kept (heap s) (heap s')"
proof -
  from assms(1) obtain a where da: "defineProperty (VObj a) k x s = Inr s'"
    by (rule defineProperty_Inr)
  note d = defineProperty_obj [OF da]
  have "own_identifier (heap s' ! i) = own_identifier (heap s ! i)" for i
  proof (cases "i = a")
    case True
    from d(8) [of "''__traceIdentifier''"] assms(2)
    have "map_of (o_props (heap s' ! a)) ''__traceIdentifier''
            = map_of (o_props (heap s ! a)) ''__traceIdentifier''" by simp
    then have "own_identifier (heap s' ! a) = own_identifier (heap s ! a)"
      by (rule own_identifier_cong)
    with True show ?thesis by simp
  next
    case False
    with d(4) show ?thesis by simp
  qed
  with d(3) show ?thesis by (simp add: identifiers_kept_def)
qed

lemma attach_listeners_identifiers:
  assumes "attach_listeners v l hid s = (r, s')"
  shows "identifiers_kept (heap s) (heap s')"
  using assms
proof (cases rule: attach_listeners_cases)
  case (get_fails e)
  then show ?thesis by (simp add: identifiers_kept_refl)
next
  case (call_fails f e)
  then show ?thesis by (simp add: identifiers_kept_refl)
next
  case (called f)
  from call_method_Inr(1) [OF called(3)] show ?thesis by (simp add: identifiers_kept_refl)
next
  case (define_fails f e)
  then show ?thesis
    by (simp add: identifiers_kept_append own_identifier_def bound_function_def)
next
  case (defined f)
  have "identifiers_kept (heap s) (heap s @ [bound_function hid])"
    by (simp add: identifiers_kept_append own_identifier_def bound_function_def)
  moreover from defineProperty_identifiers [OF defined(3)]
  have "identifiers_kept (heap s @ [bound_function hid]) (heap s')" by simp
  ultimately show ?thesis by (rule identifiers_kept_trans)
qed


lemma privateMembers_identifier:
  assumes "privateMembers_forEach (privateMembers n l path) (VObj a) s = (r, s4)"
  shows "length (heap s4) = length (heap s)"
    and "\<And>i. i \<noteq> a \<Longrightarrow> heap s4 ! i = heap s ! i"
    and "own_identifier (heap s4 ! a) = own_identifier (heap s ! a)
         \<or> (own_identifier (heap s ! a) = None \<and> own_identifier (heap s4 ! a) = Some (int n))"
proof -
  note f = privateMembers_frame_all [OF assms]
  show "length (heap s4) = length (heap s)" using f by simp
  show "heap s4 ! i = heap s ! i" if "i \<noteq> a" for i using f that by simp
  let ?rest = "[(''__traceListeners'', l), (''__path'', VStr path)]"
  have rest_keeps: "own_identifier (heap t' ! a) = own_identifier (heap t ! a)"
    if "privateMembers_forEach ?rest (VObj a) t = (r', t')" for t t' r'
  proof -
    from privateMembers_frame_all [OF that]
    have "map_of (o_props (heap t' ! a)) ''__traceIdentifier''
            = map_of (o_props (heap t ! a)) ''__traceIdentifier''" by simp
    then show ?thesis by (rule own_identifier_cong)
  qed
  show "own_identifier (heap s4 ! a) = own_identifier (heap s ! a)
         \<or> (own_identifier (heap s ! a) = None \<and> own_identifier (heap s4 ! a) = Some (int n))"
  proof (cases "has_property (heap s) (VObj a) ''__traceIdentifier''")
    case (Inl e)
    with assms have "s4 = s" by (simp add: privateMembers_def)
    then show ?thesis by simp
  next
    case (Inr here)
    note hp = has_property_obj_valid [OF Inr]
    show ?thesis
    proof (cases here)
      case True
      with Inr assms have "privateMembers_forEach ?rest (VObj a) s = (r, s4)"
        by (simp add: privateMembers_def)
      from rest_keeps [OF this] show ?thesis by simp
    next
      case False
      with hp have none: "find_prop (length (heap s)) (heap s) a ''__traceIdentifier'' = None"
        by simp
      have own_none: "map_of (o_props (heap s ! a)) ''__traceIdentifier'' = None"
      proof (cases "map_of (o_props (heap s ! a)) ''__traceIdentifier''")
        case None
        then show ?thesis .
      next
        case (Some p)
        from find_prop_own [OF hp(1) Some] none show ?thesis by simp
      qed
      then have before: "own_identifier (heap s ! a) = None"
        by (simp add: own_identifier_def)
      show ?thesis
      proof (cases "defineProperty (VObj a) ''__traceIdentifier'' (VNum (int n)) s")
        case (Inl e)
        with False Inr assms have "s4 = s" by (simp add: privateMembers_def)
        then show ?thesis by simp
      next
        case d: (Inr sd)
        with False Inr assms have "privateMembers_forEach ?rest (VObj a) sd = (r, s4)"
          by (simp add: privateMembers_def)
        from rest_keeps [OF this]
        have "own_identifier (heap s4 ! a) = own_identifier (heap sd ! a)" .
        moreover from defineProperty_obj(9) [OF d]
        have "own_identifier (heap sd ! a) = Some (int n)"
          by (auto simp: own_identifier_def)
        ultimately show ?thesis using before by simp
      qed
    qed
  qed
qed


text \<open>The identifiers after tracing an object, whatever the outcome.\<close>

lemma trace_object_identifiers:
  assumes "trace_object path v l s1 = (res, s')" and "raw v = VObj a"
  shows "length (heap s1) \<le> length (heap s')"
    and "\<And>i. i < length (heap s') \<Longrightarrow> i \<noteq> a \<Longrightarrow>
           own_identifier (heap s' ! i) = (if i < length (heap s1) then own_identifier (heap s1 ! i) else None)"
    and "a < length (heap s1) \<Longrightarrow>
           own_identifier (heap s' ! a) = own_identifier (heap s1 ! a)
           \<or> (own_identifier (heap s1 ! a) = None
              \<and> own_identifier (heap s' ! a) = Some (int (sequence s1)))"
proof -
  have pm_raw: "privateMembers_forEach ms v t = privateMembers_forEach ms (VObj a) t" for ms t
    using privateMembers_forEach_raw [of ms v t] assms(2) by simp
  obtain s4 :: state where len4: "length (heap s4) = length (heap s1)"
    and others: "\<And>i. i \<noteq> a \<Longrightarrow> heap s4 ! i = heap s1 ! i"
    and at_a: "own_identifier (heap s4 ! a) = own_identifier (heap s1 ! a)
                \<or> (own_identifier (heap s1 ! a) = None
                    \<and> own_identifier (heap s4 ! a) = Some (int (sequence s1)))"
    and kept: "identifiers_kept (heap s4) (heap s')"
    using assms(1)
  proof (cases rule: trace_object_cases)
    case (private_fails s3 e)
    have h3: "heap s3 = heap s1" by (simp add: private_fails(1))
    note p = privateMembers_identifier [OF private_fails(2) [unfolded pm_raw], unfolded h3]
    show ?thesis by (rule that [OF p(1) p(2) p(3) identifiers_kept_refl])
  next
    case (attach_fails s3 s4 e)
    have h3: "heap s3 = heap s1" by (simp add: attach_fails(1))
    note p = privateMembers_identifier [OF attach_fails(2) [unfolded pm_raw], unfolded h3]
    show ?thesis
      by (rule that [OF p(1) p(2) p(3) attach_listeners_identifiers [OF attach_fails(3)]])
  next
    case (traced s3 s4 s5)
    have h3: "heap s3 = heap s1" by (simp add: traced(1))
    note p = privateMembers_identifier [OF traced(2) [unfolded pm_raw], unfolded h3]
    have "heap s' = heap s5" using traced(4) by (cases v) auto
    with attach_listeners_identifiers [OF traced(3)]
    have k: "identifiers_kept (heap s4) (heap s')" by simp
    show ?thesis by (rule that [OF p(1) p(2) p(3) k])
  qed
  from kept have le: "length (heap s4) \<le> length (heap s')"
    and same: "\<And>i. i < length (heap s') \<Longrightarrow>
                 own_identifier (heap s' ! i) = (if i < length (heap s4) then own_identifier (heap s4 ! i) else None)"
    by (simp_all add: identifiers_kept_def)
  show "length (heap s1) \<le> length (heap s')" using le len4 by simp
  show "own_identifier (heap s' ! i) = (if i < length (heap s1) then own_identifier (heap s1 ! i) else None)"
    if "i < length (heap s')" "i \<noteq> a" for i
    using same [OF that(1)] others [OF that(2)] len4 by simp
  show "own_identifier (heap s' ! a) = own_identifier (heap s1 ! a)
           \<or> (own_identifier (heap s1 ! a) = None
              \<and> own_identifier (heap s' ! a) = Some (int (sequence s1)))"
    if "a < length (heap s1)"
    using same [of a] that le len4 at_a by simp
qed

text \<open>The counter and the identifiers after a call of \<^verbatim>\<open>Proxies.trace\<close>, whatever the
  outcome: an identifier appears only where there was none, and it is the value of the counter
  before the call.\<close>

lemma trace_identifiers:
  assumes "trace path v listeners s = (res, s')"
  shows "sequence s \<le> sequence s'"
    and "length (heap s) \<le> length (heap s')"
    and "\<And>i. i < length (heap s') \<Longrightarrow>
           own_identifier (heap s' ! i) = (if i < length (heap s) then own_identifier (heap s ! i) else None)
           \<or> (raw v = VObj i
              \<and> (if i < length (heap s) then own_identifier (heap s ! i) else None) = None
              \<and> own_identifier (heap s' ! i) = Some (int (sequence s))
              \<and> sequence s' = Suc (sequence s))"
proof -
  obtain l s1 where arr: "asArray listeners s = (l, s1)" by (cases "asArray listeners s")
  from asArray_frame [OF arr] obtain xs where s1: "s1 = s\<lparr>heap := heap s @ xs\<rparr>" by blast
  from asArray_identifiers [OF arr]
  have le1: "length (heap s) \<le> length (heap s1)"
    and same1: "\<And>i. i < length (heap s1) \<Longrightarrow>
                 own_identifier (heap s1 ! i) = (if i < length (heap s) then own_identifier (heap s ! i) else None)"
    by (simp_all add: identifiers_kept_def)
  have seq1: "sequence s1 = sequence s" by (simp add: s1)
  consider (unchanged) "s' = s" | (normalised) "s' = s1"
    | (object) a where "raw v = VObj a" "a < length (heap s1)" "trace_object path v l s1 = (res, s')"
  proof (cases "typeof (heap s) v = ''object''")
    case False
    with assms have "s' = s" by (simp add: trace_def)
    then show ?thesis by (rule unchanged)
  next
    case tobj: True
    show ?thesis
    proof (cases "isFrozen (heap s1) v")
      case (Inl e)
      with assms tobj arr have "s' = s1" by (simp add: trace_def)
      then show ?thesis by (rule normalised)
    next
      case (Inr fz)
      show ?thesis
      proof (cases fz)
        case True
        with Inr assms tobj arr have "s' = s1" by (simp add: trace_def)
        then show ?thesis by (rule normalised)
      next
        case False
        with Inr have "isFrozen (heap s1) v = Inr False" by simp
        then obtain a where a: "raw v = VObj a" "a < length (heap s1)"
          by (rule isFrozen_False_obj)
        from False Inr assms tobj arr
        have t: "trace_object path v l s1 = (res, s')" by (simp add: trace_def)
        from a t show ?thesis by (rule object)
      qed
    qed
  qed
  then have "sequence s \<le> sequence s' \<and> length (heap s) \<le> length (heap s')
      \<and> (\<forall>i < length (heap s').
           own_identifier (heap s' ! i) = (if i < length (heap s) then own_identifier (heap s ! i) else None)
           \<or> (raw v = VObj i
              \<and> (if i < length (heap s) then own_identifier (heap s ! i) else None) = None
              \<and> own_identifier (heap s' ! i) = Some (int (sequence s))
              \<and> sequence s' = Suc (sequence s)))"
  proof cases
    case unchanged
    then show ?thesis by simp
  next
    case normalised
    with le1 same1 seq1 show ?thesis by simp
  next
    case (object a)
    note o = trace_object_identifiers [OF object(3) object(1)]
    note al = trace_object_always(1) [OF object(3), unfolded seq1]
    have "own_identifier (heap s' ! i) = (if i < length (heap s) then own_identifier (heap s ! i) else None)
           \<or> (raw v = VObj i
              \<and> (if i < length (heap s) then own_identifier (heap s ! i) else None) = None
              \<and> own_identifier (heap s' ! i) = Some (int (sequence s))
              \<and> sequence s' = Suc (sequence s))"
      if i: "i < length (heap s')" for i
    proof (cases "i = a")
      case True
      from o(3) [OF object(2)] same1 [OF object(2)] al seq1 True object(1) show ?thesis by auto
    next
      case False
      show ?thesis
      proof (cases "i < length (heap s1)")
        case True
        with o(2) [OF i False] same1 [OF True] show ?thesis by simp
      next
        case False
        with o(2) [OF i \<open>i \<noteq> a\<close>] le1 show ?thesis by simp
      qed
    qed
    with al o(1) le1 show ?thesis by simp
  qed
  then show "sequence s \<le> sequence s'"
    and "length (heap s) \<le> length (heap s')"
    and "\<And>i. i < length (heap s') \<Longrightarrow>
           own_identifier (heap s' ! i) = (if i < length (heap s) then own_identifier (heap s ! i) else None)
           \<or> (raw v = VObj i
              \<and> (if i < length (heap s) then own_identifier (heap s ! i) else None) = None
              \<and> own_identifier (heap s' ! i) = Some (int (sequence s))
              \<and> sequence s' = Suc (sequence s))"
    by simp_all
qed


lemma identifiers_unique_preserved:
  assumes inv: "identifiers_unique s"
    and seq: "sequence s \<le> sequence s'"
    and step: "\<And>i. i < length (heap s') \<Longrightarrow>
           own_identifier (heap s' ! i) = None
           \<or> own_identifier (heap s' ! i) = (if i < length (heap s) then own_identifier (heap s ! i) else None)
           \<or> (raw v = VObj i
              \<and> own_identifier (heap s' ! i) = Some (int (sequence s))
              \<and> sequence s' = Suc (sequence s))"
  shows "identifiers_unique s'"
proof -
  from inv have raw: "\<forall>i < length (heap s). \<forall>n. own_identifier (heap s ! i) = Some n \<longrightarrow>
        n < int (sequence s)
        \<and> (\<forall>j < length (heap s). j \<noteq> i \<longrightarrow> own_identifier (heap s ! j) \<noteq> Some n)"
    by (simp only: identifiers_unique_iff)
  from raw have below: "n < int (sequence s)"
    if "i < length (heap s)" "own_identifier (heap s ! i) = Some n" for i n
    using that by blast
  from raw have uniq: "own_identifier (heap s ! j) \<noteq> Some n"
    if "i < length (heap s)" "own_identifier (heap s ! i) = Some n" "j < length (heap s)" "j \<noteq> i"
    for i j n
    using that by blast
  have kinds: "(i < length (heap s) \<and> own_identifier (heap s ! i) = Some n)
               \<or> (raw v = VObj i \<and> n = int (sequence s) \<and> sequence s' = Suc (sequence s))"
    if i: "i < length (heap s')" and n: "own_identifier (heap s' ! i) = Some n" for i n
  proof -
    from step [OF i] show ?thesis
    proof (elim disjE)
      assume "own_identifier (heap s' ! i) = None"
      with n show ?thesis by simp
    next
      assume "own_identifier (heap s' ! i)
                = (if i < length (heap s) then own_identifier (heap s ! i) else None)"
      with n show ?thesis by (cases "i < length (heap s)") simp_all
    next
      assume "raw v = VObj i \<and> own_identifier (heap s' ! i) = Some (int (sequence s))
              \<and> sequence s' = Suc (sequence s)"
      with n show ?thesis by simp
    qed
  qed
  have "n < int (sequence s')
        \<and> (\<forall>j < length (heap s'). j \<noteq> i \<longrightarrow> own_identifier (heap s' ! j) \<noteq> Some n)"
    if i: "i < length (heap s')" and n: "own_identifier (heap s' ! i) = Some n" for i n
  proof
    from kinds [OF i n] show "n < int (sequence s')"
    proof
      assume "i < length (heap s) \<and> own_identifier (heap s ! i) = Some n"
      with below [of i n] seq show ?thesis by simp
    next
      assume "raw v = VObj i \<and> n = int (sequence s) \<and> sequence s' = Suc (sequence s)"
      then show ?thesis by simp
    qed
    show "\<forall>j < length (heap s'). j \<noteq> i \<longrightarrow> own_identifier (heap s' ! j) \<noteq> Some n"
    proof (intro allI impI notI)
      fix j assume j: "j < length (heap s')" "j \<noteq> i" "own_identifier (heap s' ! j) = Some n"
      from kinds [OF i n] show False
      proof
        assume old_i: "i < length (heap s) \<and> own_identifier (heap s ! i) = Some n"
        from kinds [OF j(1) j(3)] show False
        proof
          assume "j < length (heap s) \<and> own_identifier (heap s ! j) = Some n"
          with old_i uniq [of i n j] j(2) show False by simp
        next
          assume "raw v = VObj j \<and> n = int (sequence s) \<and> sequence s' = Suc (sequence s)"
          with old_i below [of i n] show False by simp
        qed
      next
        assume new_i: "raw v = VObj i \<and> n = int (sequence s) \<and> sequence s' = Suc (sequence s)"
        from kinds [OF j(1) j(3)] show False
        proof
          assume "j < length (heap s) \<and> own_identifier (heap s ! j) = Some n"
          with new_i below [of j n] show False by simp
        next
          assume "raw v = VObj j \<and> n = int (sequence s) \<and> sequence s' = Suc (sequence s)"
          with new_i j(2) show False by simp
        qed
      qed
    qed
  qed
  then show ?thesis unfolding identifiers_unique_iff by blast
qed


text \<open>What a successful assignment does.\<close>

lemma assign_Inr:
  assumes "assign v k w s = Inr s'"
  obtains a where "v = VObj a" "a < length (heap s)"
    "s' = s\<lparr>heap := heap s'\<rparr>"
    "length (heap s') = length (heap s)"
    "\<And>b. b \<noteq> a \<Longrightarrow> heap s' ! b = heap s ! b"
    "o_proto (heap s' ! a) = o_proto (heap s ! a)"
    "\<And>k'. k' \<noteq> k \<Longrightarrow> map_of (o_props (heap s' ! a)) k' = map_of (o_props (heap s ! a)) k'"
    "\<exists>p. map_of (o_props (heap s' ! a)) k = Some p \<and> p_value p = w"
proof -
  from assms obtain a where v: "v = VObj a" by (cases v) auto
  from assms [unfolded v] have "a < length (heap s)
      \<and> s' = s\<lparr>heap := heap s'\<rparr>
      \<and> length (heap s') = length (heap s)
      \<and> (\<forall>b. b \<noteq> a \<longrightarrow> heap s' ! b = heap s ! b)
      \<and> o_proto (heap s' ! a) = o_proto (heap s ! a)
      \<and> (\<forall>k'. k' \<noteq> k \<longrightarrow> map_of (o_props (heap s' ! a)) k' = map_of (o_props (heap s ! a)) k')
      \<and> (\<exists>p. map_of (o_props (heap s' ! a)) k = Some p \<and> p_value p = w)"
    by (auto simp: lookup_def set_own_def update_conv' split: if_splits option.splits)
  with v that show ?thesis by blast
qed

lemma assign_identifiers:
  assumes "assign v k w s = Inr s'" and "\<And>n. w \<noteq> VNum n" and "i < length (heap s')"
  shows "own_identifier (heap s' ! i) = None
         \<or> own_identifier (heap s' ! i) = (if i < length (heap s) then own_identifier (heap s ! i) else None)"
  using assms(1)
proof (cases rule: assign_Inr)
  case (1 a)
  show ?thesis
  proof (cases "i = a")
    case False
    with 1(4,5) assms(3) show ?thesis by simp
  next
    case True
    show ?thesis
    proof (cases "k = ''__traceIdentifier''")
      case True
      from 1(8) obtain p where "map_of (o_props (heap s' ! a)) k = Some p" "p_value p = w" by blast
      with True assms(2) have "own_identifier (heap s' ! a) = None"
        by (cases w) (auto simp: own_identifier_def)
      with \<open>i = a\<close> show ?thesis by simp
    next
      case False
      then have "''__traceIdentifier'' \<noteq> k" by simp
      from 1(7) [OF this] have "own_identifier (heap s' ! a) = own_identifier (heap s ! a)"
        by (rule own_identifier_cong)
      with \<open>i = a\<close> 1(2) show ?thesis by simp
    qed
  qed
qed

lemma trace_result_not_number:
  assumes "trace path v listeners s = (Inr w, s')"
  shows "w \<noteq> VNum n"
proof (cases "typeof (heap s) v = ''object''")
  case False
  with assms show ?thesis by (simp add: trace_def)
next
  case tobj: True
  obtain l s1 where arr: "asArray listeners s = (l, s1)" by (cases "asArray listeners s")
  show ?thesis
  proof (cases "isFrozen (heap s1) v")
    case (Inl e)
    with assms tobj arr show ?thesis by (simp add: trace_def)
  next
    case (Inr fz)
    show ?thesis
    proof (cases fz)
      case True
      with Inr assms tobj arr have "w = v" by (simp add: trace_def)
      with tobj show ?thesis by auto
    next
      case False
      with Inr assms tobj arr have "trace_object path v l s1 = (Inr w, s')"
        by (simp add: trace_def)
      then show ?thesis
      proof (cases rule: trace_object_cases)
        case (traced s3 s4 s5)
        then show ?thesis by (cases v) auto
      qed simp_all
    qed
  qed
qed

lemma trace_keeps_identifiers_unique:
  assumes "trace path v listeners s = (res, s')"
  shows "sequence s \<le> sequence s' \<and> (identifiers_unique s \<longrightarrow> identifiers_unique s')"
proof -
  note t = trace_identifiers [OF assms]
  have "identifiers_unique s'" if inv: "identifiers_unique s"
  proof (rule identifiers_unique_preserved [OF inv t(1), of v])
    fix i assume "i < length (heap s')"
    from t(3) [OF this]
    show "own_identifier (heap s' ! i) = None
           \<or> own_identifier (heap s' ! i) = (if i < length (heap s) then own_identifier (heap s ! i) else None)
           \<or> (raw v = VObj i
              \<and> own_identifier (heap s' ! i) = Some (int (sequence s))
              \<and> sequence s' = Suc (sequence s))"
      by (elim disjE) simp_all
  qed
  with t(1) show ?thesis by simp
qed

lemma identifiers_kept_unique:
  assumes "identifiers_kept (heap s) (heap s')" and "sequence s \<le> sequence s'"
  shows "identifiers_unique s \<longrightarrow> identifiers_unique s'"
proof
  assume inv: "identifiers_unique s"
  show "identifiers_unique s'"
  proof (rule identifiers_unique_preserved [OF inv assms(2), of VNull])
    fix i assume "i < length (heap s')"
    with assms(1)
    have "own_identifier (heap s' ! i) = (if i < length (heap s) then own_identifier (heap s ! i) else None)"
      by (simp add: identifiers_kept_def)
    then show "own_identifier (heap s' ! i) = None
           \<or> own_identifier (heap s' ! i) = (if i < length (heap s) then own_identifier (heap s ! i) else None)
           \<or> (raw VNull = VObj i
              \<and> own_identifier (heap s' ! i) = Some (int (sequence s))
              \<and> sequence s' = Suc (sequence s))"
      by (rule disjI2 [OF disjI1])
  qed
qed

lemma assign_keeps_identifiers_unique:
  assumes "assign v k w s = Inr s'" and "\<And>n. w \<noteq> VNum n"
  shows "sequence s' = sequence s \<and> (identifiers_unique s \<longrightarrow> identifiers_unique s')"
proof -
  from assms(1) have "s' = s\<lparr>heap := heap s'\<rparr>" by (rule assign_Inr)
  then have seq: "sequence s' = sequence s"
    by (metis state.select_convs(1) state.surjective state.update_convs(2))
  have "identifiers_unique s'" if inv: "identifiers_unique s"
  proof (rule identifiers_unique_preserved [OF inv, of _ VNull])
    show "sequence s \<le> sequence s'" using seq by simp
    fix i assume "i < length (heap s')"
    from assign_identifiers [OF assms this]
    show "own_identifier (heap s' ! i) = None
           \<or> own_identifier (heap s' ! i) = (if i < length (heap s) then own_identifier (heap s ! i) else None)
           \<or> (raw VNull = VObj i
              \<and> own_identifier (heap s' ! i) = Some (int (sequence s))
              \<and> sequence s' = Suc (sequence s))"
      by (elim disjE) simp_all
  qed
  with seq show ?thesis by simp
qed

lemma create_entry_keeps_identifiers_unique:
  assumes "create_entry Paths_create pathPrefix l e root0 s = (res, s')"
  shows "sequence s \<le> sequence s' \<and> (identifiers_unique s \<longrightarrow> identifiers_unique s')"
proof -
  let ?path = "if pathPrefix \<noteq> '''' then Paths_create pathPrefix (e_path e) else e_path e"
  obtain r1 s1 where t: "trace ?path (e_value e) l s = (r1, s1)"
    by (cases "trace ?path (e_value e) l s")
  note t1 = trace_keeps_identifiers_unique [OF t]
  show ?thesis
  proof (cases r1)
    case (Inl err)
    with assms t have "s' = s1" by (simp add: create_entry_def)
    with t1 show ?thesis by simp
  next
    case (Inr w)
    show ?thesis
    proof (cases "e_parent e \<noteq> VNull \<and> e_parent e \<noteq> VUndefined")
      case False
      with assms t Inr have "s' = s1" by (auto simp: create_entry_def)
      with t1 show ?thesis by simp
    next
      case True
      show ?thesis
      proof (cases "assign (e_parent e) (e_parentKey e) w s1")
        case (Inl err)
        with assms t Inr True have "s' = s1" by (simp add: create_entry_def)
        with t1 show ?thesis by simp
      next
        case asg: (Inr s2)
        with assms t Inr True have s': "s' = s2" by (simp add: create_entry_def)
        from t Inr have "w \<noteq> VNum n" for n
          using trace_result_not_number by blast
        note assign_keeps_identifiers_unique [OF asg this]
        with s' t1 show ?thesis by simp
      qed
    qed
  qed
qed

lemma forEach_entry_keeps_identifiers_unique:
  assumes "forEach_entry Paths_create pathPrefix l es root0 s = (res, s')"
  shows "sequence s \<le> sequence s' \<and> (identifiers_unique s \<longrightarrow> identifiers_unique s')"
  using assms
proof (induction es arbitrary: root0 s)
  case Nil
  then show ?case by simp
next
  case (Cons e es)
  obtain r1 s1 where c: "create_entry Paths_create pathPrefix l e root0 s = (r1, s1)"
    by (cases "create_entry Paths_create pathPrefix l e root0 s")
  note c1 = create_entry_keeps_identifiers_unique [OF c]
  show ?case
  proof (cases r1)
    case (Inl err)
    with Cons.prems c have "s' = s1" by simp
    with c1 show ?thesis by simp
  next
    case (Inr root1)
    with Cons.prems c have "forEach_entry Paths_create pathPrefix l es root1 s1 = (res, s')"
      by simp
    from Cons.IH [OF this] c1 show ?thesis by simp
  qed
qed

lemma create_keeps_identifiers_unique:
  assumes "create Paths_create ObjectPaths_recurse target listeners opts s = (res, s')"
  shows "sequence s \<le> sequence s' \<and> (identifiers_unique s \<longrightarrow> identifiers_unique s')"
proof (cases "typeof (heap s) target = ''object''")
  case False
  with assms have "s' = s" by (simp add: create_def)
  then show ?thesis by simp
next
  case True
  obtain l0 s0 where a0: "(if \<not> truthy listeners then alloc empty_array s else (listeners, s)) = (l0, s0)"
    by (cases "if \<not> truthy listeners then alloc empty_array s else (listeners, s)")
  obtain l s1 where arr: "asArray l0 s0 = (l, s1)" by (cases "asArray l0 s0")
  have "own_identifier empty_array = None"
    by (simp add: own_identifier_def empty_array_def)
  with a0 have k0: "identifiers_kept (heap s) (heap s0)" and q0: "sequence s0 = sequence s"
    by (auto simp: alloc_def identifiers_kept_refl identifiers_kept_append split: if_splits)
  from asArray_frame [OF arr] have q1: "sequence s1 = sequence s0" by auto
  note k1 = asArray_identifiers [OF arr]
  from assms True a0 arr
  have "forEach_entry Paths_create (Objects_defaults opts '''') l
          (ObjectPaths_recurse (heap s1) target) VNull s1 = (res, s')"
    by (simp add: create_def)
  note f = forEach_entry_keeps_identifiers_unique [OF this]
  have "sequence s \<le> sequence s1" using q0 q1 by simp
  from identifiers_kept_unique [OF identifiers_kept_trans [OF k0 k1] this] q0 q1 f
  show ?thesis by simp
qed

section \<open>Proxies, the counter: results\<close>

text \<open>
  Claim C7. The counter is never reset and never decreases: a call of \<^verbatim>\<open>Proxies.trace\<close>
  or of \<^verbatim>\<open>Proxies.create\<close> leaves it at least where it was, and every call of
  \<^verbatim>\<open>Proxies.trace\<close> on an object that is not frozen takes exactly one value from it,
  whatever the outcome of the call (also when the object has its identifier already and the
  listeners are merged). An identifier that is in the heap after a call of
  \<^verbatim>\<open>Proxies.trace\<close> either was on the same object before, or is on the traced object
  (the value, or the object behind it when the value is a proxy) and is the value that the
  counter had before the call. So when all identifiers in the heap
  are pairwise different and below the counter, as they are in a process that has traced
  nothing, they are so after any call of \<^verbatim>\<open>Proxies.trace\<close> and
  \<^verbatim>\<open>Proxies.create\<close>.
\<close>

theorem sequence_monotone_identifiers_unique:
  "(trace path v listeners s = (res, s') \<longrightarrow>
      sequence s \<le> sequence s'
      \<and> (typeof (heap s) v = ''object'' \<and> isFrozen (heap s) v = Inr False \<longrightarrow>
            sequence s' = Suc (sequence s))
      \<and> (\<forall>i < length (heap s'). \<forall>n. own_identifier (heap s' ! i) = Some n \<longrightarrow>
            (i < length (heap s) \<and> own_identifier (heap s ! i) = Some n)
            \<or> (raw v = VObj i \<and> n = int (sequence s) \<and> sequence s' = Suc (sequence s)))
      \<and> (identifiers_unique s \<longrightarrow> identifiers_unique s'))
   \<and> (create Paths_create ObjectPaths_recurse target listeners2 opts s = (res2, s2) \<longrightarrow>
      sequence s \<le> sequence s2 \<and> (identifiers_unique s \<longrightarrow> identifiers_unique s2))"
proof (intro conjI impI)
  assume t: "trace path v listeners s = (res, s')"
  note ti = trace_identifiers [OF t]
  show "sequence s \<le> sequence s'" by (rule ti(1))
  show "identifiers_unique s'" if "identifiers_unique s"
    using trace_keeps_identifiers_unique [OF t] that by simp
  show "\<forall>i < length (heap s'). \<forall>n. own_identifier (heap s' ! i) = Some n \<longrightarrow>
            (i < length (heap s) \<and> own_identifier (heap s ! i) = Some n)
            \<or> (raw v = VObj i \<and> n = int (sequence s) \<and> sequence s' = Suc (sequence s))"
  proof (intro allI impI)
    fix i n assume i: "i < length (heap s')" and n: "own_identifier (heap s' ! i) = Some n"
    from ti(3) [OF i]
    show "(i < length (heap s) \<and> own_identifier (heap s ! i) = Some n)
            \<or> (raw v = VObj i \<and> n = int (sequence s) \<and> sequence s' = Suc (sequence s))"
    proof (elim disjE)
      assume "own_identifier (heap s' ! i)
                = (if i < length (heap s) then own_identifier (heap s ! i) else None)"
      with n show ?thesis by (cases "i < length (heap s)") simp_all
    next
      assume "raw v = VObj i
              \<and> (if i < length (heap s) then own_identifier (heap s ! i) else None) = None
              \<and> own_identifier (heap s' ! i) = Some (int (sequence s))
              \<and> sequence s' = Suc (sequence s)"
      with n show ?thesis by simp
    qed
  qed
next
  assume t: "trace path v listeners s = (res, s')"
    and o: "typeof (heap s) v = ''object'' \<and> isFrozen (heap s) v = Inr False"
  obtain l s1 where arr: "asArray listeners s = (l, s1)" by (cases "asArray listeners s")
  from asArray_frame [OF arr] have "sequence s1 = sequence s" by auto
  moreover from trace_nonfrozen [OF conjunct1 [OF o] conjunct2 [OF o] arr, of path] t
  have "trace_object path v l s1 = (res, s')" by simp
  then have "sequence s' = Suc (sequence s1)" by (rule trace_object_always(1))
  ultimately show "sequence s' = Suc (sequence s)" by simp
next
  assume c: "create Paths_create ObjectPaths_recurse target listeners2 opts s = (res2, s2)"
  from create_keeps_identifiers_unique [OF c]
  show "sequence s \<le> sequence s2" by simp
  show "identifiers_unique s2" if "identifiers_unique s"
    using create_keeps_identifiers_unique [OF c] that by simp
qed

theorem sequence_monotone_identifiers_unique_witness:
  "trace ''/'' (VObj 0) (VObj 1) example_state = (Inr (VProxy 0 (VObj 0) 0), traced_once)
   \<and> typeof (heap example_state) (VObj 0) = ''object''
   \<and> isFrozen (heap example_state) (VObj 0) = Inr False
   \<and> identifiers_unique example_state
   \<and> sequence example_state = 0
   \<and> sequence traced_once = 1
   \<and> own_identifier (heap traced_once ! 0) = Some 0
   \<and> identifiers_unique traced_once"
proof -
  have u: "identifiers_unique example_state"
    by (simp add: identifiers_unique_def example_state_def with_heap_def initial_state_def
        own_identifier_def object_literal_def empty_array_def upt_rec)
  have q: "sequence example_state = 0"
    by (simp add: example_state_def with_heap_def initial_state_def)
  have o: "own_identifier (heap traced_once ! 0) = Some 0"
    by (simp add: traced_once_eq own_identifier_def)
  from sequence_monotone_identifiers_unique
    [of "''/''" "VObj 0" "VObj 1" example_state "Inr (VProxy 0 (VObj 0) 0)" traced_once]
    example_trace example_state_object(1,2) u q
  have "sequence traced_once = 1 \<and> identifiers_unique traced_once" by simp
  with example_trace example_state_object(1,2) u q o show ?thesis by blast
qed

text \<open>
  Claim C9. Tracing a frozen value leaves the counter unchanged. So the next trace of an
  object that is not frozen and has no identifier gives it, as its own
  \<^verbatim>\<open>__traceIdentifier\<close>, the value that the counter had before the frozen value was
  traced: the identifier that it gets when the frozen value is not traced at all.
\<close>

theorem frozen_trace_leaves_sequence:
  assumes "typeof (heap s) v = ''object''" and "isFrozen (heap s) v = Inr True"
    and "trace path v listeners s = (res, s')"
  shows "sequence s' = sequence s
       \<and> (\<forall>t \<in> {s, s'}. \<forall>path2 a listeners2 l t1 r t2.
            typeof (heap t) (VObj a) = ''object'' \<and> isFrozen (heap t) (VObj a) = Inr False
            \<and> asArray listeners2 t = (l, t1)
            \<and> has_property (heap t1) (VObj a) ''__traceIdentifier'' = Inr False
            \<and> trace path2 (VObj a) listeners2 t = (Inr r, t2)
            \<longrightarrow> map_of (o_props (heap t2 ! a)) ''__traceIdentifier''
                  = Some \<lparr>p_value = VNum (int (sequence s)), p_writable = False,
                           p_enumerable = False, p_configurable = False\<rparr>)"
proof -
  obtain l0 s1 where arr: "asArray listeners s = (l0, s1)" by (cases "asArray listeners s")
  from trace_frozen [OF assms(1,2), of path listeners] assms(3) arr have "s' = s1" by simp
  with asArray_frame [OF arr] have seq: "sequence s' = sequence s" by auto
  have next_id: "map_of (o_props (heap t2 ! a)) ''__traceIdentifier''
                  = Some \<lparr>p_value = VNum (int (sequence t)), p_writable = False,
                           p_enumerable = False, p_configurable = False\<rparr>"
    if "typeof (heap t) (VObj a) = ''object''" "isFrozen (heap t) (VObj a) = Inr False"
      "asArray listeners2 t = (l, t1)"
      "has_property (heap t1) (VObj a) ''__traceIdentifier'' = Inr False"
      "trace path2 (VObj a) listeners2 t = (Inr r, t2)"
    for t :: state and path2 a listeners2 l t1 r t2
  proof -
    from asArray_frame [OF that(3)] have q: "sequence t1 = sequence t" by auto
    have tr: "trace_object path2 (VObj a) l t1 = (Inr r, t2)"
      using trace_nonfrozen [OF that(1,2,3), of path2] that(5) by simp
    have valid: "a < length (heap t1)"
      by (rule trace_object_result(1) [OF tr]) simp
    have "(''__traceIdentifier'', VNum (int (sequence t1)))
            \<in> set (privateMembers (sequence t1) l path2)"
      by (simp add: privateMembers_def)
    from trace_object_hidden(1) [OF tr _ valid _ this] that(4) q show ?thesis by simp
  qed
  from seq next_id show ?thesis by auto
qed

theorem frozen_trace_leaves_sequence_witness:
  "typeof (heap mixed_state) (VObj 0) = ''object''
   \<and> isFrozen (heap mixed_state) (VObj 0) = Inr True
   \<and> trace ''/'' (VObj 0) (VObj 1) mixed_state = (Inr (VObj 0), mixed_state)
   \<and> sequence mixed_state = 0
   \<and> typeof (heap mixed_state) (VObj 2) = ''object''
   \<and> isFrozen (heap mixed_state) (VObj 2) = Inr False
   \<and> asArray (VObj 1) mixed_state = (VObj 1, mixed_state)
   \<and> has_property (heap mixed_state) (VObj 2) ''__traceIdentifier'' = Inr False
   \<and> fst (trace ''/b'' (VObj 2) (VObj 1) mixed_state) = Inr (VProxy 0 (VObj 2) 0)
   \<and> map_of (o_props (heap (snd (trace ''/b'' (VObj 2) (VObj 1) mixed_state)) ! 2))
         ''__traceIdentifier''
       = Some \<lparr>p_value = VNum 0, p_writable = False, p_enumerable = False,
                p_configurable = False\<rparr>"
proof -
  have f: "typeof (heap mixed_state) (VObj 0) = ''object''"
    "isFrozen (heap mixed_state) (VObj 0) = Inr True"
    "trace ''/'' (VObj 0) (VObj 1) mixed_state = (Inr (VObj 0), mixed_state)"
    by (simp_all add: model_defs)
  have q: "sequence mixed_state = 0"
    by (simp add: mixed_state_def with_heap_def initial_state_def)
  have o: "typeof (heap mixed_state) (VObj 2) = ''object''"
    "isFrozen (heap mixed_state) (VObj 2) = Inr False"
    "asArray (VObj 1) mixed_state = (VObj 1, mixed_state)"
    "has_property (heap mixed_state) (VObj 2) ''__traceIdentifier'' = Inr False"
    by (simp_all add: model_defs)
  have r: "fst (trace ''/b'' (VObj 2) (VObj 1) mixed_state) = Inr (VProxy 0 (VObj 2) 0)"
    by (simp add: model_defs)
  then have t: "trace ''/b'' (VObj 2) (VObj 1) mixed_state
                 = (Inr (VProxy 0 (VObj 2) 0), snd (trace ''/b'' (VObj 2) (VObj 1) mixed_state))"
    by (simp add: prod_eq_iff)
  from frozen_trace_leaves_sequence [OF f] o t q
  have "map_of (o_props (heap (snd (trace ''/b'' (VObj 2) (VObj 1) mixed_state)) ! 2))
         ''__traceIdentifier''
       = Some \<lparr>p_value = VNum 0, p_writable = False, p_enumerable = False,
                p_configurable = False\<rparr>"
    by fastforce
  with f q o r show ?thesis by blast
qed

section \<open>Proxies.create: what a call does\<close>

lemma trace_handlers:
  assumes "trace path v listeners s = (res, s')"
  shows "handlers s' = handlers s
         \<or> (\<exists>l. handlers s' = handlers s @ [\<lparr>h_path = path, h_listeners = l, h_target = v\<rparr>])"
proof (cases "typeof (heap s) v = ''object''")
  case False
  with assms show ?thesis by (simp add: trace_def)
next
  case tobj: True
  obtain l s1 where arr: "asArray listeners s = (l, s1)" by (cases "asArray listeners s")
  from asArray_frame [OF arr] have h1: "handlers s1 = handlers s" by auto
  show ?thesis
  proof (cases "isFrozen (heap s1) v")
    case (Inl e)
    with assms tobj arr h1 show ?thesis by (simp add: trace_def)
  next
    case (Inr fz)
    show ?thesis
    proof (cases fz)
      case True
      with Inr assms tobj arr h1 show ?thesis by (simp add: trace_def)
    next
      case False
      with Inr assms tobj arr have "trace_object path v l s1 = (res, s')"
        by (simp add: trace_def)
      from trace_object_always(2) [OF this] h1 show ?thesis by simp
    qed
  qed
qed

lemma assign_fields:
  assumes "assign v k w s = Inr s'"
  shows "sequence s' = sequence s" and "handlers s' = handlers s"
    and "proxies s' = proxies s" and "calls s' = calls s"
proof -
  from assms have eq: "s' = s\<lparr>heap := heap s'\<rparr>" by (rule assign_Inr)
  show "sequence s' = sequence s" by (subst eq) simp
  show "handlers s' = handlers s" by (subst eq) simp
  show "proxies s' = proxies s" by (subst eq) simp
  show "calls s' = calls s" by (subst eq) simp
qed

text \<open>The callback of \<^verbatim>\<open>forEach\<close>, by cases.\<close>

lemma create_entry_cases:
  assumes "create_entry Paths_create pathPrefix l e root0 s = (res, s')"
  obtains
    (trace_fails) err where
      "trace (if pathPrefix \<noteq> [] then Paths_create pathPrefix (e_path e) else e_path e)
         (e_value e) l s = (Inl err, s')"
      "res = Inl err"
  | (is_root) w where
      "trace (if pathPrefix \<noteq> [] then Paths_create pathPrefix (e_path e) else e_path e)
         (e_value e) l s = (Inr w, s')"
      "e_parent e = VNull \<or> e_parent e = VUndefined" "res = Inr w"
  | (assign_fails) w err where
      "trace (if pathPrefix \<noteq> [] then Paths_create pathPrefix (e_path e) else e_path e)
         (e_value e) l s = (Inr w, s')"
      "e_parent e \<noteq> VNull" "e_parent e \<noteq> VUndefined"
      "assign (e_parent e) (e_parentKey e) w s' = Inl err" "res = Inl err"
  | (assigned) w s1 where
      "trace (if pathPrefix \<noteq> [] then Paths_create pathPrefix (e_path e) else e_path e)
         (e_value e) l s = (Inr w, s1)"
      "e_parent e \<noteq> VNull" "e_parent e \<noteq> VUndefined"
      "assign (e_parent e) (e_parentKey e) w s1 = Inr s'" "res = Inr root0"
proof -
  let ?path = "if pathPrefix \<noteq> [] then Paths_create pathPrefix (e_path e) else e_path e"
  obtain r1 s1 where t: "trace ?path (e_value e) l s = (r1, s1)"
    by (cases "trace ?path (e_value e) l s")
  show ?thesis
  proof (cases r1)
    case (Inl err)
    with assms t have "res = Inl err" "s1 = s'" by (simp_all add: create_entry_def)
    with t Inl show ?thesis by (intro trace_fails [of err]) simp_all
  next
    case (Inr w)
    show ?thesis
    proof (cases "e_parent e \<noteq> VNull \<and> e_parent e \<noteq> VUndefined")
      case False
      with assms t Inr have "res = Inr w" "s1 = s'" by (auto simp: create_entry_def)
      with t Inr False show ?thesis by (intro is_root [of w]) auto
    next
      case True
      show ?thesis
      proof (cases "assign (e_parent e) (e_parentKey e) w s1")
        case (Inl err)
        with assms t Inr True have "res = Inl err" "s1 = s'" by (simp_all add: create_entry_def)
        with t Inr True Inl show ?thesis by (intro assign_fails [of w err]) simp_all
      next
        case asg: (Inr s2)
        with assms t Inr True have "res = Inr root0" "s2 = s'" by (simp_all add: create_entry_def)
        with t Inr True asg show ?thesis by (intro assigned [of w s1]) simp_all
      qed
    qed
  qed
qed

lemma create_entry_handlers:
  assumes "create_entry Paths_create pathPrefix l e root0 s = (res, s')"
  shows "handlers s' = handlers s
         \<or> (\<exists>l'. handlers s' = handlers s @
               [\<lparr>h_path = (if pathPrefix \<noteq> [] then Paths_create pathPrefix (e_path e) else e_path e),
                 h_listeners = l', h_target = e_value e\<rparr>])"
  using assms
proof (cases rule: create_entry_cases)
  case (trace_fails err)
  from trace_handlers [OF trace_fails(1)] show ?thesis .
next
  case (is_root w)
  from trace_handlers [OF is_root(1)] show ?thesis .
next
  case (assign_fails w err)
  from trace_handlers [OF assign_fails(1)] show ?thesis .
next
  case (assigned w s1)
  from trace_handlers [OF assigned(1)] assign_fields(2) [OF assigned(4)] show ?thesis by simp
qed

lemma forEach_entry_handlers:
  assumes "forEach_entry Paths_create pathPrefix l es root0 s = (res, s')"
  shows "\<exists>hs. handlers s' = handlers s @ hs
           \<and> (\<forall>h \<in> set hs. \<exists>e \<in> set es. h_target h = e_value e
                 \<and> h_path h = (if pathPrefix \<noteq> [] then Paths_create pathPrefix (e_path e)
                               else e_path e))"
  using assms
proof (induction es arbitrary: root0 s)
  case Nil
  then show ?case by simp
next
  case (Cons e es)
  obtain r1 s1 where c: "create_entry Paths_create pathPrefix l e root0 s = (r1, s1)"
    by (cases "create_entry Paths_create pathPrefix l e root0 s")
  from create_entry_handlers [OF c] obtain h1 where
    h1: "handlers s1 = handlers s @ h1"
      "\<forall>h \<in> set h1. h_target h = e_value e
          \<and> h_path h = (if pathPrefix \<noteq> [] then Paths_create pathPrefix (e_path e) else e_path e)"
  proof (elim disjE exE)
    assume "handlers s1 = handlers s"
    then show ?thesis by (intro that [of "[]"]) simp_all
  next
    fix l' assume "handlers s1 = handlers s @
               [\<lparr>h_path = (if pathPrefix \<noteq> [] then Paths_create pathPrefix (e_path e) else e_path e),
                 h_listeners = l', h_target = e_value e\<rparr>]"
    then show ?thesis
      by (intro that [of "[\<lparr>h_path = (if pathPrefix \<noteq> [] then Paths_create pathPrefix (e_path e)
                                        else e_path e),
                             h_listeners = l', h_target = e_value e\<rparr>]"]) simp_all
  qed
  show ?case
  proof (cases r1)
    case (Inl err)
    with Cons.prems c have "s' = s1" by simp
    with h1 show ?thesis by (intro exI [of _ h1]) auto
  next
    case (Inr root1)
    with Cons.prems c have "forEach_entry Paths_create pathPrefix l es root1 s1 = (res, s')"
      by simp
    from Cons.IH [OF this] obtain h2 where
      h2: "handlers s' = handlers s1 @ h2"
        "\<forall>h \<in> set h2. \<exists>e \<in> set es. h_target h = e_value e
           \<and> h_path h = (if pathPrefix \<noteq> [] then Paths_create pathPrefix (e_path e)
                         else e_path e)"
      by blast
    from h1 h2 show ?thesis by (intro exI [of _ "h1 @ h2"]) auto
  qed
qed

section \<open>Proxies.create: results\<close>

text \<open>
  Claim C8. For every record that \<^verbatim>\<open>Proxies.create\<close> processes and whose value is an
  object that is not frozen, one Trace Handler is constructed, for the record's value, and
  its path is the join of \<^verbatim>\<open>pathPrefix\<close> and the record's path when
  \<^verbatim>\<open>pathPrefix\<close> is a non-empty string, and the record's path itself when
  \<^verbatim>\<open>pathPrefix\<close> is omitted or empty. Every handler that a call of
  \<^verbatim>\<open>Proxies.create\<close> constructs has the value of a record as target and that path.
\<close>

theorem traced_path_is_prefixed_path:
  "(create_entry Paths_create (Objects_defaults opts []) l e root0 s = (res, s')
      \<and> typeof (heap s) (e_value e) = ''object'' \<and> isFrozen (heap s) (e_value e) = Inr False
    \<longrightarrow>
      length (handlers s') = Suc (length (handlers s))
      \<and> h_target (handlers s' ! length (handlers s)) = e_value e
      \<and> h_path (handlers s' ! length (handlers s)) =
          (case opts of
             None \<Rightarrow> e_path e
           | Some pathPrefix \<Rightarrow>
               if pathPrefix = [] then e_path e else Paths_create pathPrefix (e_path e)))
   \<and> (create Paths_create ObjectPaths_recurse target listeners opts s = (res2, s2)
    \<longrightarrow>
      (\<exists>hs h. handlers s2 = handlers s @ hs
         \<and> (\<forall>x \<in> set hs. \<exists>e \<in> set (ObjectPaths_recurse h target).
               h_target x = e_value e
               \<and> h_path x =
                   (case opts of
                      None \<Rightarrow> e_path e
                    | Some pathPrefix \<Rightarrow>
                        if pathPrefix = [] then e_path e
                        else Paths_create pathPrefix (e_path e)))))"
proof (intro conjI impI)
  let ?pp = "Objects_defaults opts []"
  have expected: "(if ?pp \<noteq> [] then Paths_create ?pp (e_path x) else e_path x) =
          (case opts of
             None \<Rightarrow> e_path x
           | Some pathPrefix \<Rightarrow>
               if pathPrefix = [] then e_path x else Paths_create pathPrefix (e_path x))" for x
    by (simp add: Objects_defaults_def split: option.split)
  {
    assume a: "create_entry Paths_create ?pp l e root0 s = (res, s')
      \<and> typeof (heap s) (e_value e) = ''object'' \<and> isFrozen (heap s) (e_value e) = Inr False"
    let ?path = "if ?pp \<noteq> [] then Paths_create ?pp (e_path e) else e_path e"
    obtain l1 s1 where arr: "asArray l s = (l1, s1)" by (cases "asArray l s")
    from asArray_frame [OF arr] have h1: "handlers s1 = handlers s" by auto
    obtain r1 t1 where t: "trace ?path (e_value e) l s = (r1, t1)"
      by (cases "trace ?path (e_value e) l s")
    from a arr t have "trace_object ?path (e_value e) l1 s1 = (r1, t1)"
      using trace_nonfrozen [of s "e_value e" l l1 s1 ?path] by simp
    from trace_object_always(2) [OF this] h1
    have ht: "handlers t1 = handlers s @ [\<lparr>h_path = ?path, h_listeners = l1, h_target = e_value e\<rparr>]"
      by simp
    from conjunct1 [OF a] have "handlers s' = handlers t1"
    proof (cases rule: create_entry_cases)
      case (assigned w s3)
      with t assign_fields(2) [OF assigned(4)] show ?thesis by simp
    qed (use t in simp_all)
    with ht have hs: "handlers s' = handlers s @ [\<lparr>h_path = ?path, h_listeners = l1, h_target = e_value e\<rparr>]"
      by simp
    from hs show "length (handlers s') = Suc (length (handlers s))" by simp
    from hs show "h_target (handlers s' ! length (handlers s)) = e_value e" by simp
    from hs expected [of e]
    show "h_path (handlers s' ! length (handlers s)) =
          (case opts of
             None \<Rightarrow> e_path e
           | Some pathPrefix \<Rightarrow>
               if pathPrefix = [] then e_path e else Paths_create pathPrefix (e_path e))"
      by simp
  }
  assume c: "create Paths_create ObjectPaths_recurse target listeners opts s = (res2, s2)"
  show "\<exists>hs h. handlers s2 = handlers s @ hs
         \<and> (\<forall>x \<in> set hs. \<exists>e \<in> set (ObjectPaths_recurse h target).
               h_target x = e_value e
               \<and> h_path x =
                   (case opts of
                      None \<Rightarrow> e_path e
                    | Some pathPrefix \<Rightarrow>
                        if pathPrefix = [] then e_path e
                        else Paths_create pathPrefix (e_path e)))"
  proof (cases "typeof (heap s) target = ''object''")
    case False
    with c have "handlers s2 = handlers s @ []" by (simp add: create_def)
    then show ?thesis by (intro exI [of _ "[]"]) simp
  next
    case True
    obtain l0 s0 where a0: "(if \<not> truthy listeners then alloc empty_array s else (listeners, s)) = (l0, s0)"
      by (cases "if \<not> truthy listeners then alloc empty_array s else (listeners, s)")
    obtain l1 s1 where arr: "asArray l0 s0 = (l1, s1)" by (cases "asArray l0 s0")
    from a0 have "handlers s0 = handlers s" by (auto simp: alloc_def split: if_splits)
    with asArray_frame [OF arr] have h1: "handlers s1 = handlers s" by auto
    from c True a0 arr
    have "forEach_entry Paths_create ?pp l1 (ObjectPaths_recurse (heap s1) target) VNull s1
            = (res2, s2)"
      by (simp add: create_def)
    from forEach_entry_handlers [OF this] obtain hs where
      hs: "handlers s2 = handlers s1 @ hs"
        "\<forall>x \<in> set hs. \<exists>e \<in> set (ObjectPaths_recurse (heap s1) target). h_target x = e_value e
           \<and> h_path x = (if ?pp \<noteq> [] then Paths_create ?pp (e_path e) else e_path e)"
      by blast
    from hs h1 show ?thesis
      by (intro exI [of _ hs] exI [of _ "heap s1"]) (simp add: expected)
  qed
qed

theorem traced_path_is_prefixed_path_witness:
  "typeof (heap tree_state) (VObj 1) = ''object''
   \<and> isFrozen (heap tree_state) (VObj 1) = Inr False
   \<and> length (handlers (snd (create_entry join_paths (Objects_defaults (Some ''doc'') [])
         (VObj 2) \<lparr>e_path = ''/a'', e_value = VObj 1, e_parent = VObj 0, e_parentKey = ''a''\<rparr>
         VNull tree_state))) = 1
   \<and> h_path (handlers (snd (create_entry join_paths (Objects_defaults (Some ''doc'') [])
         (VObj 2) \<lparr>e_path = ''/a'', e_value = VObj 1, e_parent = VObj 0, e_parentKey = ''a''\<rparr>
         VNull tree_state)) ! 0) = ''doc/a''
   \<and> h_path (handlers (snd (create_entry join_paths (Objects_defaults None [])
         (VObj 2) \<lparr>e_path = ''/a'', e_value = VObj 1, e_parent = VObj 0, e_parentKey = ''a''\<rparr>
         VNull tree_state)) ! 0) = ''/a''
   \<and> map h_path (handlers (snd (create join_paths (\<lambda>h t. tree_entries) (VObj 0) (VObj 2)
         (Some ''doc'') tree_state))) = [''doc/'', ''doc/a'']"
proof -
  let ?e = "\<lparr>e_path = ''/a'', e_value = VObj 1, e_parent = VObj 0, e_parentKey = ''a''\<rparr>"
  have o: "typeof (heap tree_state) (e_value ?e) = ''object''"
    "isFrozen (heap tree_state) (e_value ?e) = Inr False"
    by (simp_all add: model_defs)
  have h0: "length (handlers tree_state) = 0"
    by (simp add: tree_state_def with_heap_def initial_state_def)
  let ?c = "create_entry join_paths (Objects_defaults (Some ''doc'') []) (VObj 2) ?e VNull
              tree_state"
  let ?d = "create_entry join_paths (Objects_defaults None []) (VObj 2) ?e VNull tree_state"
  have c: "?c = (fst ?c, snd ?c)" "?d = (fst ?d, snd ?d)"
    by simp_all
  note i = traced_path_is_prefixed_path [of join_paths "Some ''doc''" "VObj 2" ?e VNull
      tree_state "fst ?c" "snd ?c", THEN conjunct1, rule_format, OF conjI [OF c(1) conjI [OF o]]]
  from i h0
  have a: "length (handlers (snd ?c)) = 1" "h_path (handlers (snd ?c) ! 0) = ''doc/a''"
    by (simp_all add: join_paths_def)
  note j = traced_path_is_prefixed_path [of join_paths None "VObj 2" ?e VNull
      tree_state "fst ?d" "snd ?d", THEN conjunct1, rule_format, OF conjI [OF c(2) conjI [OF o]]]
  from j h0
  have b: "h_path (handlers (snd ?d) ! 0) = ''/a''"
    by simp
  have d: "map h_path (handlers (snd (create join_paths (\<lambda>h t. tree_entries) (VObj 0) (VObj 2)
         (Some ''doc'') tree_state))) = [''doc/'', ''doc/a'']"
    by (simp add: model_defs)
  from o a b d show ?thesis by simp
qed

text \<open>
  Claim C6. "If the record has a parent, \<^verbatim>\<open>parent[parentKey]\<close> is overwritten with the
  traced value; \<^verbatim>\<open>Proxies.create\<close> returns the traced root and every edge of the
  graph is rewired." \<^verbatim>\<open>Proxies.trace\<close> passes a frozen object through (lines 82 to 86),
  and the assignment to the parent (line 64) does not ask whether the parent is frozen. On the
  graph \<^verbatim>\<open>Object.freeze({a: {b: 1}})\<close> the root is returned by
  \<^verbatim>\<open>Proxies.trace\<close> as it is, its child is traced, and the assignment of the proxy to
  \<^verbatim>\<open>root.a\<close> raises a TypeError (a class body is strict code):
  \<^verbatim>\<open>Proxies.create\<close> returns nothing and the edge holds the child as before. On the
  same graph with the root not frozen, the root's proxy is returned and the edge holds the
  child's proxy.
\<close>

theorem frozen_parent_edge_not_rewired:
  "typeof (heap frozen_tree_state) (VObj 0) = ''object''
   \<and> isFrozen (heap frozen_tree_state) (VObj 0) = Inr True
   \<and> isFrozen (heap frozen_tree_state) (VObj 1) = Inr False
   \<and> fst (trace ''/'' (VObj 0) (VObj 2) frozen_tree_state) = Inr (VObj 0)
   \<and> fst (create join_paths (\<lambda>h t. tree_entries) (VObj 0) (VObj 2) None frozen_tree_state)
       = Inl TypeError
   \<and> proxies (snd (create join_paths (\<lambda>h t. tree_entries) (VObj 0) (VObj 2) None
          frozen_tree_state)) = [(VObj 1, 0)]
   \<and> get_member (heap (snd (create join_paths (\<lambda>h t. tree_entries) (VObj 0) (VObj 2) None
          frozen_tree_state))) (VObj 0) ''a'' = Inr (VObj 1)
   \<and> fst (create join_paths (\<lambda>h t. tree_entries) (VObj 0) (VObj 2) None tree_state)
       = Inr (VProxy 0 (VObj 0) 0)
   \<and> get_member (heap (snd (create join_paths (\<lambda>h t. tree_entries) (VObj 0) (VObj 2) None
          tree_state))) (VObj 0) ''a'' = Inr (VProxy 1 (VObj 1) 1)"
  by (simp add: model_defs)

end
